theory Spec2Isabelle
  imports Main "HOL-Library.Word"
begin

unbundle bit_operations_syntax

section \<open>Data model\<close>

text \<open>
  The driver stack is C for an LP64 host: \<open>size_t\<close>, \<open>uintptr_t\<close> and data pointers
  are 64-bit unsigned machine words, \<open>uint32_t\<close> is a 32-bit word. Pointers are modelled
  by their address; \<open>NULL\<close> is address 0.
\<close>

type_synonym size_t = "64 word"
type_synonym ptr = "64 word"
type_synonym uint32_t = "32 word"
type_synonym uint64_t = "64 word"

definition NULL :: ptr where
  "NULL = 0"

text \<open>\<open>(size_t)-1\<close>, the largest value of \<open>size_t\<close>.\<close>

definition SIZE_MAX :: size_t where
  "SIZE_MAX = - 1"

text \<open>\<open>hal_mem.h\<close>: \<open>#define HAL_MEM_ALIGN 64\<close>.\<close>

definition HAL_MEM_ALIGN :: size_t where
  "HAL_MEM_ALIGN = 64"

text \<open>\<open>hal_base.h\<close>: status bits and the accelerator memory region.\<close>

definition HAL_STATUS_READY :: uint32_t where
  "HAL_STATUS_READY = 0x1"

definition HAL_STATUS_BUSY :: uint32_t where
  "HAL_STATUS_BUSY = 0x2"

definition HAL_STATUS_COMPLETE :: uint32_t where
  "HAL_STATUS_COMPLETE = 0x4"

definition HAL_STATUS_ERROR :: uint32_t where
  "HAL_STATUS_ERROR = 0x8"

definition HAL_ACCEL_MEM_BASE :: uint64_t where
  "HAL_ACCEL_MEM_BASE = 0x30000000"

definition HAL_ACCEL_MEM_SIZE :: size_t where
  "HAL_ACCEL_MEM_SIZE = 256 * 1024 * 1024"

text \<open>
  \<open>struct mem_block\<close> of \<open>hal_mem.c\<close>. The \<open>next\<close> link is the list structure: the
  singly linked block list is a HOL list in link order. The field \<open>size\<close> is named
  \<open>bsize\<close> here.
\<close>

record mem_block =
  addr :: ptr
  bsize :: size_t
  used :: bool

text \<open>
  \<open>sizeof(struct mem_block)\<close> on LP64: two 8-byte fields, a \<open>bool\<close> padded to 8 bytes,
  and an 8-byte link.
\<close>

definition sizeof_mem_block :: size_t where
  "sizeof_mem_block = 32"

text \<open>\<open>struct hal_mem_context\<close> of \<open>hal_mem.c\<close>.\<close>

record hal_mem_context =
  base_addr :: ptr
  total_size :: size_t
  blocks :: "mem_block list"

text \<open>
  The configuration records of \<open>hal_config.h\<close> (packed structs of 32- and 64-bit
  words). Field names carry the record's prefix.
\<close>

record hal_lsu_config_t =
  lsu_opcode :: uint32_t
  lsu_src_addr :: uint64_t
  lsu_dst_addr :: uint64_t
  lsu_length :: uint32_t
  lsu_control :: uint32_t
  lsu_status :: uint32_t

record hal_systolic_config_t =
  sys_opcode :: uint32_t
  sys_in_height :: uint32_t
  sys_in_width :: uint32_t
  sys_in_channels :: uint32_t
  sys_out_height :: uint32_t
  sys_out_width :: uint32_t
  sys_out_channels :: uint32_t
  sys_stride :: uint32_t
  sys_control :: uint32_t
  sys_status :: uint32_t

record hal_img2col_config_t =
  i2c_opcode :: uint32_t
  i2c_in_height :: uint32_t
  i2c_in_width :: uint32_t
  i2c_in_channels :: uint32_t
  i2c_kernel_size :: uint32_t
  i2c_stride :: uint32_t
  i2c_pad :: uint32_t
  i2c_control :: uint32_t
  i2c_status :: uint32_t

text \<open>
  The union \<open>ir_data\<close> of \<open>hal_controller_ir_t\<close>. Each writer of this code base
  zero-fills the whole register image and then copies exactly one member into the union,
  so the image is determined by which member was copied and its value; the datatype
  records that. Equal values of this type stand for equal byte images.
\<close>

datatype ir_data_t =
  IR_LSU hal_lsu_config_t
  | IR_SYSTOLIC hal_systolic_config_t
  | IR_IMG2COL hal_img2col_config_t

record hal_controller_ir_t =
  ir_opcode :: uint32_t
  ir_src_addr :: uint64_t
  ir_dst_addr :: uint64_t
  ir_length :: uint32_t
  ir_control :: uint32_t
  ir_status :: uint32_t
  ir_data :: ir_data_t

text \<open>
  \<open>struct hal_context\<close> of \<open>hal_base.h\<close>. The mapped register window
  \<open>mapped_memory\<close> is \<open>None\<close> for a null mapping and otherwise the sequence of
  instruction-register images that have been copied into the window, most recent first:
  the head is the window's current contents, and the list grows by one on every write.
  \<open>mem_ctx\<close> is \<open>None\<close> for a null allocator context.
\<close>

record hal_context =
  fd :: int
  status :: uint32_t
  mapped_memory :: "hal_controller_ir_t list option"
  accel_memory_base :: ptr
  accel_memory_size :: size_t
  mem_ctx :: "hal_mem_context option"

section \<open>Device allocator (\<open>hal_mem.c\<close>)\<close>

text \<open>\<open>align_size\<close>: \<open>(size + HAL_MEM_ALIGN - 1) & ~(HAL_MEM_ALIGN - 1)\<close> in \<open>size_t\<close>.\<close>

definition align_size :: "size_t \<Rightarrow> size_t" where
  "align_size sz = (sz + HAL_MEM_ALIGN - 1) AND NOT (HAL_MEM_ALIGN - 1)"

text \<open>
  \<open>hal_mem_init\<close> (it dereferences \<open>ctx\<close> unchecked, so the context is not
  optional here). The two flags say whether the two \<open>malloc\<close> calls (context, first
  block) succeed; when the first fails the second is not made. The function returns the
  context and the C return value.
\<close>

definition hal_mem_init ::
  "hal_context \<Rightarrow> ptr \<Rightarrow> size_t \<Rightarrow> bool \<Rightarrow> bool \<Rightarrow> hal_context \<times> bool" where
  "hal_mem_init ctx base sz malloc_ctx_ok malloc_block_ok =
     (if \<not> malloc_ctx_ok then (ctx, False)
      else if \<not> malloc_block_ok then (ctx, False)
      else (ctx\<lparr>mem_ctx := Some \<lparr>base_addr = base, total_size = sz,
                blocks = [\<lparr>addr = base, bsize = sz, used = False\<rparr>]\<rparr>\<rparr>, True))"

text \<open>
  The best-fit scan of \<open>hal_mem_alloc\<close>: one pass over the list, \<open>i\<close> is the position
  of the block under the cursor, \<open>best_fit\<close> the position of the best block so far
  (\<open>None\<close> for the null pointer) and \<open>best_size\<close> its size, initially \<open>(size_t)-1\<close>.
\<close>

fun find_best_fit ::
  "size_t \<Rightarrow> mem_block list \<Rightarrow> nat \<Rightarrow> nat option \<Rightarrow> size_t \<Rightarrow> nat option" where
  "find_best_fit sz [] i best_fit best_size = best_fit"
| "find_best_fit sz (b # bs) i best_fit best_size =
     (if \<not> used b \<and> sz \<le> bsize b \<and> bsize b < best_size
      then find_best_fit sz bs (Suc i) (Some i) (bsize b)
      else find_best_fit sz bs (Suc i) best_fit best_size)"

text \<open>
  The body of \<open>hal_mem_alloc\<close> after its guards, on the block list: \<open>sz\<close> is the
  size already rounded by \<open>align_size\<close>; \<open>malloc_ok\<close> says whether the \<open>malloc\<close> of the
  header for a split-off remainder succeeds (it is only consulted when a split is due). The
  result is the new block list and the returned pointer.
\<close>

definition alloc_blocks :: "mem_block list \<Rightarrow> size_t \<Rightarrow> bool \<Rightarrow> mem_block list \<times> ptr" where
  "alloc_blocks bs sz malloc_ok =
     (case find_best_fit sz bs 0 None SIZE_MAX of
        None \<Rightarrow> (bs, NULL)
      | Some i \<Rightarrow>
          (let best = bs ! i in
           if bsize best > sz + sizeof_mem_block + HAL_MEM_ALIGN then
             (if \<not> malloc_ok then (bs, NULL)
              else (take i bs
                    @ [best\<lparr>bsize := sz, used := True\<rparr>,
                       \<lparr>addr = addr best + sz, bsize = bsize best - sz, used = False\<rparr>]
                    @ drop (Suc i) bs, addr best))
           else (bs[i := best\<lparr>used := True\<rparr>], addr best)))"

text \<open>\<open>hal_mem_alloc\<close>; a null \<open>ctx\<close> is \<open>None\<close>.\<close>

definition hal_mem_alloc ::
  "hal_context option \<Rightarrow> size_t \<Rightarrow> bool \<Rightarrow> hal_context option \<times> ptr" where
  "hal_mem_alloc ctx sz malloc_ok =
     (case ctx of
        None \<Rightarrow> (ctx, NULL)
      | Some c \<Rightarrow>
          (case mem_ctx c of
             None \<Rightarrow> (ctx, NULL)
           | Some m \<Rightarrow>
               if sz = 0 then (ctx, NULL)
               else (case alloc_blocks (blocks m) (align_size sz) malloc_ok of
                       (bs', p) \<Rightarrow> (Some (c\<lparr>mem_ctx := Some (m\<lparr>blocks := bs'\<rparr>)\<rparr>), p))))"

text \<open>
  The search loop of \<open>hal_mem_free\<close>: \<open>pre\<close> holds the blocks already passed (its last
  element is \<open>prev\<close>); the result splits the list at the first block whose address is
  \<open>p\<close>, or is \<open>None\<close> when the cursor runs off the end.
\<close>

fun find_block ::
  "ptr \<Rightarrow> mem_block list \<Rightarrow> mem_block list
     \<Rightarrow> (mem_block list \<times> mem_block \<times> mem_block list) option" where
  "find_block p pre [] = None"
| "find_block p pre (b # bs) =
     (if addr b = p then Some (pre, b, bs) else find_block p (pre @ [b]) bs)"

text \<open>The loop that absorbs the free blocks following \<open>block\<close>.\<close>

fun merge_next :: "mem_block \<Rightarrow> mem_block list \<Rightarrow> mem_block \<times> mem_block list" where
  "merge_next b [] = (b, [])"
| "merge_next b (n # rest) =
     (if \<not> used n then merge_next (b\<lparr>bsize := bsize b + bsize n\<rparr>) rest
      else (b, n # rest))"

text \<open>The body of \<open>hal_mem_free\<close> after its guards, on the block list.\<close>

definition free_blocks :: "mem_block list \<Rightarrow> ptr \<Rightarrow> mem_block list" where
  "free_blocks bs p =
     (case find_block p [] bs of
        None \<Rightarrow> bs
      | Some (pre, b, post) \<Rightarrow>
          if \<not> used b then bs
          else (case merge_next (b\<lparr>used := False\<rparr>) post of
                  (b', post') \<Rightarrow>
                    if pre \<noteq> [] \<and> \<not> used (last pre)
                    then butlast pre @ [(last pre)\<lparr>bsize := bsize (last pre) + bsize b'\<rparr>] @ post'
                    else pre @ [b'] @ post'))"

text \<open>\<open>hal_mem_free\<close>.\<close>

definition hal_mem_free :: "hal_context option \<Rightarrow> ptr \<Rightarrow> hal_context option" where
  "hal_mem_free ctx p =
     (case ctx of
        None \<Rightarrow> ctx
      | Some c \<Rightarrow>
          (case mem_ctx c of
             None \<Rightarrow> ctx
           | Some m \<Rightarrow>
               if p = NULL then ctx
               else Some (c\<lparr>mem_ctx := Some (m\<lparr>blocks := free_blocks (blocks m) p\<rparr>)\<rparr>)))"

text \<open>The summation loop of \<open>hal_mem_available\<close>, with its accumulator.\<close>

fun available_loop :: "mem_block list \<Rightarrow> size_t \<Rightarrow> size_t" where
  "available_loop [] available = available"
| "available_loop (b # bs) available =
     available_loop bs (if \<not> used b then available + bsize b else available)"

definition hal_mem_available :: "hal_context option \<Rightarrow> size_t" where
  "hal_mem_available ctx =
     (case ctx of
        None \<Rightarrow> 0
      | Some c \<Rightarrow> (case mem_ctx c of None \<Rightarrow> 0 | Some m \<Rightarrow> available_loop (blocks m) 0))"

text \<open>
  \<open>hal_virt_to_phys\<close>. The upper bound \<open>base_addr + total_size\<close> is pointer arithmetic
  in the 64-bit address space.
\<close>

definition hal_virt_to_phys :: "hal_context option \<Rightarrow> ptr \<Rightarrow> uint64_t" where
  "hal_virt_to_phys ctx vaddr =
     (case ctx of
        None \<Rightarrow> 0
      | Some c \<Rightarrow>
          (case mem_ctx c of
             None \<Rightarrow> 0
           | Some m \<Rightarrow>
               if vaddr < base_addr m \<or> vaddr \<ge> base_addr m + total_size m then 0
               else HAL_ACCEL_MEM_BASE + (vaddr - base_addr m)))"

section \<open>Status and wait (\<open>hal_io.c\<close>)\<close>

definition hal_is_ready :: "hal_context option \<Rightarrow> bool" where
  "hal_is_ready ctx =
     (case ctx of None \<Rightarrow> False | Some c \<Rightarrow> status c AND HAL_STATUS_READY \<noteq> 0)"

definition hal_is_busy :: "hal_context option \<Rightarrow> bool" where
  "hal_is_busy ctx =
     (case ctx of None \<Rightarrow> False | Some c \<Rightarrow> status c AND HAL_STATUS_BUSY \<noteq> 0)"

definition hal_is_error :: "hal_context option \<Rightarrow> bool" where
  "hal_is_error ctx =
     (case ctx of None \<Rightarrow> False | Some c \<Rightarrow> status c AND HAL_STATUS_ERROR \<noteq> 0)"

definition hal_get_status :: "hal_context option \<Rightarrow> uint32_t" where
  "hal_get_status ctx = (case ctx of None \<Rightarrow> 0 | Some c \<Rightarrow> status c)"

definition hal_set_status :: "hal_context option \<Rightarrow> uint32_t \<Rightarrow> hal_context option" where
  "hal_set_status ctx st = (case ctx of None \<Rightarrow> None | Some c \<Rightarrow> Some (c\<lparr>status := st\<rparr>))"

text \<open>
  The status word is an ordinary field of the context. The polling loop sleeps between two
  reads of it, and whatever else writes the field (the device glue, a test double calling
  \<open>hal_set_status\<close>) does so while the loop sleeps. That environment is a parameter:
  \<open>env k s\<close> is the value the field holds after the \<open>k\<close>-th \<open>usleep\<close> of a call
  (counting from 0) when it held \<open>s\<close> before. \<open>quiet\<close> is the environment in which
  nobody else writes the field.
\<close>

type_synonym hw_env = "nat \<Rightarrow> uint32_t \<Rightarrow> uint32_t"

definition quiet :: hw_env where
  "quiet k s = s"

text \<open>
  The loop of \<open>hal_wait_for_ready\<close>: \<open>while (retries-- > 0)\<close> with \<open>retries\<close> the
  iterations still allowed and \<open>k\<close> the number of \<open>usleep(1000)\<close> calls made so far.
  It returns the context as the loop leaves it, the result, and the number of sleeps.
\<close>

fun poll_ready :: "nat \<Rightarrow> hal_context \<Rightarrow> hw_env \<Rightarrow> nat \<Rightarrow> hal_context \<times> bool \<times> nat" where
  "poll_ready 0 c env k = (c, False, k)"
| "poll_ready (Suc retries) c env k =
     (if hal_is_ready (Some c) then (c, True, k)
      else poll_ready retries (c\<lparr>status := env k (status c)\<rparr>) env (Suc k))"

definition hal_wait_for_ready ::
  "hal_context option \<Rightarrow> hw_env \<Rightarrow> hal_context option \<times> bool \<times> nat" where
  "hal_wait_for_ready ctx env =
     (case ctx of
        None \<Rightarrow> (None, False, 0)
      | Some c \<Rightarrow> (case poll_ready 100 c env 0 of (c', r, k) \<Rightarrow> (Some c', r, k)))"

text \<open>The environment as a later call of the same thread sees it, after \<open>n\<close> sleeps.\<close>

definition later :: "nat \<Rightarrow> hw_env \<Rightarrow> hw_env" where
  "later n env k = env (n + k)"

section \<open>Register programmer (\<open>hal_config.c\<close>)\<close>

text \<open>
  \<open>write_config\<close>: a null \<open>config\<close> is \<open>None\<close>. The \<open>memcpy\<close> of the whole
  instruction-register image into the mapped window is one write of the window.
\<close>

definition write_config ::
  "hal_context option \<Rightarrow> hal_controller_ir_t option \<Rightarrow> hw_env
     \<Rightarrow> hal_context option \<times> bool \<times> nat" where
  "write_config ctx config env =
     (case ctx of
        None \<Rightarrow> (ctx, False, 0)
      | Some c0 \<Rightarrow>
          (case config of
             None \<Rightarrow> (ctx, False, 0)
           | Some img \<Rightarrow>
               (case hal_wait_for_ready ctx env of
                  (ctx', ready, k) \<Rightarrow>
                    if \<not> ready then (ctx', False, k)
                    else (case ctx' of
                            None \<Rightarrow> (ctx', False, k)
                          | Some c \<Rightarrow>
                              (case mapped_memory c of
                                 None \<Rightarrow> (ctx', False, k)
                               | Some window \<Rightarrow>
                                   (Some (c\<lparr>mapped_memory := Some (img # window)\<rparr>),
                                    True, k))))))"

text \<open>\<open>hal_controller_ir_t ir = {0}\<close> with one union member copied in.\<close>

definition ir_zero_with :: "ir_data_t \<Rightarrow> hal_controller_ir_t" where
  "ir_zero_with d =
     \<lparr>ir_opcode = 0, ir_src_addr = 0, ir_dst_addr = 0, ir_length = 0, ir_control = 0,
      ir_status = 0, ir_data = d\<rparr>"

text \<open>
  The three configure functions copy from \<open>config\<close> unchecked, so the configuration is
  not optional here.
\<close>

definition hal_configure_lsu ::
  "hal_context option \<Rightarrow> hal_lsu_config_t \<Rightarrow> hw_env \<Rightarrow> hal_context option \<times> bool \<times> nat" where
  "hal_configure_lsu ctx config env = write_config ctx (Some (ir_zero_with (IR_LSU config))) env"

definition hal_configure_systolic ::
  "hal_context option \<Rightarrow> hal_systolic_config_t \<Rightarrow> hw_env
     \<Rightarrow> hal_context option \<times> bool \<times> nat" where
  "hal_configure_systolic ctx config env =
     write_config ctx (Some (ir_zero_with (IR_SYSTOLIC config))) env"

definition hal_configure_img2col ::
  "hal_context option \<Rightarrow> hal_img2col_config_t \<Rightarrow> hw_env
     \<Rightarrow> hal_context option \<times> bool \<times> nat" where
  "hal_configure_img2col ctx config env =
     write_config ctx (Some (ir_zero_with (IR_IMG2COL config))) env"

section \<open>Context lifecycle (\<open>hal_base.c\<close>)\<close>

text \<open>
  What the operating system answers to \<open>hal_init\<close>: whether each \<open>malloc\<close> succeeds,
  the descriptor \<open>open\<close> returns for a path (negative on failure; the path may be null),
  whether the register mapping succeeds, and the address of the accelerator-memory mapping
  (\<open>None\<close> for \<open>MAP_FAILED\<close>).
\<close>

record os_env =
  os_malloc_ctx :: bool
  os_open :: "string option \<Rightarrow> int"
  os_mmap_regs :: bool
  os_mmap_mem :: "ptr option"
  os_malloc_mem_ctx :: bool
  os_malloc_block :: bool

text \<open>
  \<open>hal_init\<close>. The freshly mapped register window has received no write yet. The
  \<open>mem_ctx\<close> field of the new context is set by \<open>hal_mem_init\<close>.
\<close>

definition hal_init :: "os_env \<Rightarrow> string option \<Rightarrow> hal_context option" where
  "hal_init os device_path =
     (if \<not> os_malloc_ctx os then None
      else if os_open os device_path < 0 then None
      else if \<not> os_mmap_regs os then None
      else (case os_mmap_mem os of
              None \<Rightarrow> None
            | Some base \<Rightarrow>
                (case hal_mem_init
                        \<lparr>fd = os_open os device_path, status = HAL_STATUS_READY,
                         mapped_memory = Some [], accel_memory_base = base,
                         accel_memory_size = HAL_ACCEL_MEM_SIZE, mem_ctx = None\<rparr>
                        base HAL_ACCEL_MEM_SIZE (os_malloc_mem_ctx os) (os_malloc_block os) of
                   (ctx, ok) \<Rightarrow> if \<not> ok then None else Some ctx)))"

section \<open>Driver facade (\<open>accel.c\<close>, \<open>accel_config.c\<close>)\<close>

datatype accel_op_type_t = ACCEL_OP_NONE | ACCEL_OP_MATMUL | ACCEL_OP_CONV2D

datatype accel_status_t =
  ACCEL_STATUS_OK
  | ACCEL_STATUS_ERROR
  | ACCEL_STATUS_INVALID_PARAM
  | ACCEL_STATUS_NO_MEMORY
  | ACCEL_STATUS_TIMEOUT
  | ACCEL_STATUS_BUSY
  | ACCEL_STATUS_NOT_INITIALIZED

record accel_buffer_t =
  host_addr :: ptr
  dev_addr :: uint64_t
  buf_size :: uint32_t

text \<open>
  \<open>accel_op_params_t\<close>; its buffer fields \<open>input\<close>, \<open>output\<close> and \<open>weights\<close> carry
  the suffix \<open>_buf\<close> here.
\<close>

record accel_op_params_t =
  op_type :: accel_op_type_t
  input_buf :: accel_buffer_t
  output_buf :: accel_buffer_t
  weights_buf :: accel_buffer_t
  flags :: uint32_t

record accel_config_t =
  cfg_flags :: uint32_t
  num_channels :: uint32_t
  max_transfer :: uint32_t
  timeout_ms :: uint32_t

definition ACCEL_CONFIG_ENABLE_DMA :: uint32_t where
  "ACCEL_CONFIG_ENABLE_DMA = push_bit 0 1"

text \<open>The global driver context \<open>g_ctx\<close> of \<open>accel.c\<close>, passed and returned explicitly.\<close>

record driver_ctx =
  hal :: "hal_context option"
  config :: accel_config_t
  last_error :: string
  initialized :: bool

definition accel_config_zero :: accel_config_t where
  "accel_config_zero = \<lparr>cfg_flags = 0, num_channels = 0, max_transfer = 0, timeout_ms = 0\<rparr>"

text \<open>The static initialiser \<open>g_ctx = {0}\<close>, also what \<open>memset\<close> leaves.\<close>

definition g_ctx_zero :: driver_ctx where
  "g_ctx_zero = \<lparr>hal = None, config = accel_config_zero, last_error = [], initialized = False\<rparr>"

definition HAL_OP_MATMUL :: uint32_t where
  "HAL_OP_MATMUL = 0x01"

definition HAL_OP_CONV :: uint32_t where
  "HAL_OP_CONV = 0x02"

definition convert_hal_status :: "uint32_t \<Rightarrow> accel_status_t" where
  "convert_hal_status hal_status =
     (if hal_status AND HAL_STATUS_ERROR \<noteq> 0 then ACCEL_STATUS_ERROR
      else if hal_status AND HAL_STATUS_BUSY \<noteq> 0 then ACCEL_STATUS_BUSY
      else ACCEL_STATUS_OK)"

definition accel_init :: "driver_ctx \<Rightarrow> os_env \<Rightarrow> string option \<Rightarrow> driver_ctx \<times> accel_status_t" where
  "accel_init g os device_path =
     (if device_path = None then (g, ACCEL_STATUS_INVALID_PARAM)
      else if initialized g then (g, ACCEL_STATUS_OK)
      else (case hal_init os device_path of
              None \<Rightarrow> (g\<lparr>hal := None, last_error := ''Failed to initialize HAL''\<rparr>,
                        ACCEL_STATUS_ERROR)
            | Some c \<Rightarrow> (g\<lparr>hal := Some c, initialized := True\<rparr>, ACCEL_STATUS_OK)))"

definition accel_cleanup :: "driver_ctx \<Rightarrow> driver_ctx" where
  "accel_cleanup g = (if initialized g then g_ctx_zero else g)"

definition systolic_zero :: hal_systolic_config_t where
  "systolic_zero =
     \<lparr>sys_opcode = 0, sys_in_height = 0, sys_in_width = 0, sys_in_channels = 0,
      sys_out_height = 0, sys_out_width = 0, sys_out_channels = 0, sys_stride = 0,
      sys_control = 0, sys_status = 0\<rparr>"

definition lsu_zero :: hal_lsu_config_t where
  "lsu_zero =
     \<lparr>lsu_opcode = 0, lsu_src_addr = 0, lsu_dst_addr = 0, lsu_length = 0, lsu_control = 0,
      lsu_status = 0\<rparr>"

text \<open>
  The second half of \<open>accel_submit_op\<close>, after the \<open>switch\<close>: program the load-store
  unit. \<open>k\<close> is the number of sleeps the call has made so far.
\<close>

definition submit_lsu ::
  "driver_ctx \<Rightarrow> accel_op_params_t \<Rightarrow> hw_env \<Rightarrow> nat \<Rightarrow> driver_ctx \<times> accel_status_t \<times> nat" where
  "submit_lsu g params env k =
     (case hal_configure_lsu (hal g)
             (lsu_zero\<lparr>lsu_src_addr := dev_addr (input_buf params),
                       lsu_dst_addr := dev_addr (output_buf params),
                       lsu_length := buf_size (input_buf params)\<rparr>) (later k env) of
        (h, ok, k') \<Rightarrow>
          if \<not> ok then (g\<lparr>hal := h\<rparr>, ACCEL_STATUS_ERROR, k + k')
          else (g\<lparr>hal := h\<rparr>, ACCEL_STATUS_OK, k + k'))"

text \<open>
  The two programming cases of the \<open>switch\<close> differ only in the opcode; \<open>opc\<close> is
  \<open>HAL_OP_MATMUL\<close> or \<open>HAL_OP_CONV\<close>.
\<close>

definition submit_systolic ::
  "driver_ctx \<Rightarrow> accel_op_params_t \<Rightarrow> uint32_t \<Rightarrow> hw_env
     \<Rightarrow> driver_ctx \<times> accel_status_t \<times> nat" where
  "submit_systolic g params opc env =
     (case hal_configure_systolic (hal g)
             (systolic_zero\<lparr>sys_opcode := opc, sys_control := flags params\<rparr>) env of
        (h, ok, k) \<Rightarrow>
          if \<not> ok then (g\<lparr>hal := h\<rparr>, ACCEL_STATUS_ERROR, k)
          else submit_lsu (g\<lparr>hal := h\<rparr>) params env k)"

text \<open>\<open>accel_submit_op\<close>; a null \<open>params\<close> is \<open>None\<close>.\<close>

definition accel_submit_op ::
  "driver_ctx \<Rightarrow> accel_op_params_t option \<Rightarrow> hw_env \<Rightarrow> driver_ctx \<times> accel_status_t \<times> nat" where
  "accel_submit_op g params env =
     (if \<not> initialized g then (g, ACCEL_STATUS_NOT_INITIALIZED, 0)
      else (case params of
              None \<Rightarrow> (g, ACCEL_STATUS_INVALID_PARAM, 0)
            | Some p \<Rightarrow>
                (case op_type p of
                   ACCEL_OP_MATMUL \<Rightarrow> submit_systolic g p HAL_OP_MATMUL env
                 | ACCEL_OP_CONV2D \<Rightarrow> submit_systolic g p HAL_OP_CONV env
                 | ACCEL_OP_NONE \<Rightarrow> (g, ACCEL_STATUS_INVALID_PARAM, 0))))"

text \<open>\<open>accel_wait_complete\<close>. The parameter \<open>timeout\<close> is \<open>timeout_ms\<close>.\<close>

definition accel_wait_complete ::
  "driver_ctx \<Rightarrow> uint32_t \<Rightarrow> hw_env \<Rightarrow> driver_ctx \<times> accel_status_t \<times> nat" where
  "accel_wait_complete g timeout env =
     (if \<not> initialized g then (g, ACCEL_STATUS_NOT_INITIALIZED, 0)
      else (case hal_wait_for_ready (hal g) env of
              (h, ready, k) \<Rightarrow>
                if \<not> ready
                then (g\<lparr>hal := h, last_error := ''Operation timed out''\<rparr>,
                      ACCEL_STATUS_TIMEOUT, k)
                else (g\<lparr>hal := h\<rparr>, convert_hal_status (hal_get_status h), k)))"

definition accel_get_error :: "driver_ctx \<Rightarrow> string" where
  "accel_get_error g = last_error g"

text \<open>\<open>accel_config.c\<close>. A null \<open>config\<close> pointer is \<open>None\<close>.\<close>

definition accel_configure ::
  "driver_ctx \<Rightarrow> accel_config_t option \<Rightarrow> driver_ctx \<times> accel_status_t" where
  "accel_configure g cfg =
     (if \<not> initialized g then (g, ACCEL_STATUS_NOT_INITIALIZED)
      else (case cfg of
              None \<Rightarrow> (g, ACCEL_STATUS_INVALID_PARAM)
            | Some c \<Rightarrow> (g\<lparr>config := c\<rparr>, ACCEL_STATUS_OK)))"

text \<open>
  \<open>accel_get_config\<close>: \<open>out\<close> is what the caller's \<open>config\<close> pointer refers to
  (\<open>None\<close> for a null pointer); the result holds what it refers to afterwards.
\<close>

definition accel_get_config ::
  "driver_ctx \<Rightarrow> accel_config_t option \<Rightarrow> accel_config_t option \<times> accel_status_t" where
  "accel_get_config g out =
     (if \<not> initialized g then (out, ACCEL_STATUS_NOT_INITIALIZED)
      else (case out of
              None \<Rightarrow> (out, ACCEL_STATUS_INVALID_PARAM)
            | Some c \<Rightarrow> (Some (config g), ACCEL_STATUS_OK)))"

definition accel_reset_config :: "driver_ctx \<Rightarrow> driver_ctx \<times> accel_status_t" where
  "accel_reset_config g =
     (if \<not> initialized g then (g, ACCEL_STATUS_NOT_INITIALIZED)
      else (g\<lparr>config := accel_config_zero\<lparr>cfg_flags := ACCEL_CONFIG_ENABLE_DMA,
                  num_channels := 1, max_transfer := 0x1000000, timeout_ms := 1000\<rparr>\<rparr>,
            ACCEL_STATUS_OK))"

section \<open>Runtime wrapper (\<open>runtime.hpp\<close>)\<close>

text \<open>
  \<open>Runtime::SubmitAndWait\<close>: a thrown \<open>std::runtime_error\<close> is \<open>Inl\<close> of its message.
\<close>

definition SubmitAndWait ::
  "driver_ctx \<Rightarrow> accel_op_params_t \<Rightarrow> hw_env \<Rightarrow> driver_ctx \<times> (string + unit)" where
  "SubmitAndWait g params env =
     (case accel_submit_op g (Some params) env of
        (g1, st1, k) \<Rightarrow>
          if st1 \<noteq> ACCEL_STATUS_OK
          then (g1, Inl (''Failed to submit operation: '' @ accel_get_error g1))
          else (case accel_wait_complete g1 0 (later k env) of
                  (g2, st2, k') \<Rightarrow>
                    if st2 \<noteq> ACCEL_STATUS_OK
                    then (g2, Inl (''Operation failed: '' @ accel_get_error g2))
                    else (g2, Inr ())))"

definition MatrixMultiply ::
  "driver_ctx \<Rightarrow> accel_buffer_t \<Rightarrow> accel_buffer_t \<Rightarrow> accel_buffer_t \<Rightarrow> hw_env
     \<Rightarrow> driver_ctx \<times> (string + unit)" where
  "MatrixMultiply g inp wts outp env =
     SubmitAndWait g
       \<lparr>op_type = ACCEL_OP_MATMUL, input_buf = inp, output_buf = outp, weights_buf = wts, flags = 0\<rparr> env"

definition Convolution2D ::
  "driver_ctx \<Rightarrow> accel_buffer_t \<Rightarrow> accel_buffer_t \<Rightarrow> accel_buffer_t \<Rightarrow> hw_env
     \<Rightarrow> driver_ctx \<times> (string + unit)" where
  "Convolution2D g inp wts outp env =
     SubmitAndWait g
       \<lparr>op_type = ACCEL_OP_CONV2D, input_buf = inp, output_buf = outp, weights_buf = wts, flags = 0\<rparr> env"

section \<open>Vocabulary of the properties\<close>

text \<open>
  The status word as the \<open>j\<close>-th poll of a wait finds it: the field of the context the
  call started with, after the environment has acted during \<open>j\<close> sleeps.
\<close>

fun status_after :: "hal_context \<Rightarrow> hw_env \<Rightarrow> nat \<Rightarrow> uint32_t" where
  "status_after c env 0 = status c"
| "status_after c env (Suc j) = env j (status_after c env j)"

definition ready_after :: "hal_context \<Rightarrow> hw_env \<Rightarrow> nat \<Rightarrow> bool" where
  "ready_after c env j = (status_after c env j AND HAL_STATUS_READY \<noteq> 0)"

subsection \<open>Sample values\<close>

text \<open>
  An operating system that grants every request of \<open>hal_init\<close> and maps the
  accelerator memory at \<open>sample_base\<close>.
\<close>

definition sample_base :: ptr where
  "sample_base = 0x7F0000000000"

definition sample_os :: os_env where
  "sample_os =
     \<lparr>os_malloc_ctx = True, os_open = (\<lambda>p. 3), os_mmap_regs = True,
      os_mmap_mem = Some sample_base, os_malloc_mem_ctx = True, os_malloc_block = True\<rparr>"

definition sample_session :: driver_ctx where
  "sample_session = fst (accel_init g_ctx_zero sample_os (Some ''/dev/accelerator0''))"

text \<open>The same session after \<open>hal_set_status(ctx, HAL_STATUS_BUSY)\<close>.\<close>

definition busy_session :: driver_ctx where
  "busy_session = sample_session\<lparr>hal := hal_set_status (hal sample_session) HAL_STATUS_BUSY\<rparr>"

text \<open>A device that turns ready during the 150th sleep and not before.\<close>

definition ready_in_150 :: hw_env where
  "ready_in_150 k s = (if k = 149 then HAL_STATUS_READY else s)"

definition sample_buffer :: "ptr \<Rightarrow> accel_buffer_t" where
  "sample_buffer off =
     \<lparr>host_addr = sample_base + off, dev_addr = HAL_ACCEL_MEM_BASE + off, buf_size = 1024\<rparr>"

definition sample_params :: "ptr \<Rightarrow> accel_op_params_t" where
  "sample_params w =
     \<lparr>op_type = ACCEL_OP_MATMUL, input_buf = sample_buffer 0, output_buf = sample_buffer 1024,
      weights_buf = sample_buffer w, flags = 0\<rparr>"

subsection \<open>Allocator call sequences\<close>

text \<open>
  A call of the allocator's interface: \<open>Alloc sz ok\<close> is \<open>hal_mem_alloc(ctx, sz)\<close> with
  \<open>ok\<close> the outcome of the \<open>malloc\<close> it may make, \<open>Free p\<close> is \<open>hal_mem_free(ctx, p)\<close>.
\<close>

datatype mem_call = Alloc size_t bool | Free ptr

fun apply_call :: "hal_context option \<Rightarrow> mem_call \<Rightarrow> hal_context option" where
  "apply_call ctx (Alloc sz malloc_ok) = fst (hal_mem_alloc ctx sz malloc_ok)"
| "apply_call ctx (Free p) = hal_mem_free ctx p"

definition run_calls :: "hal_context option \<Rightarrow> mem_call list \<Rightarrow> hal_context option" where
  "run_calls ctx calls = foldl apply_call ctx calls"

text \<open>
  The allocator right after a successful \<open>hal_mem_init(ctx, base, size)\<close> on the context
  \<open>c\<close>.
\<close>

definition fresh_allocator :: "hal_context \<Rightarrow> ptr \<Rightarrow> size_t \<Rightarrow> hal_context option" where
  "fresh_allocator c base sz = Some (fst (hal_mem_init c base sz True True))"

definition ctx_blocks :: "hal_context option \<Rightarrow> mem_block list" where
  "ctx_blocks ctx =
     (case ctx of None \<Rightarrow> [] | Some c \<Rightarrow> (case mem_ctx c of None \<Rightarrow> [] | Some m \<Rightarrow> blocks m))"

text \<open>The sum of the block sizes, as a natural number (no wrap-around).\<close>

definition sizes_sum :: "mem_block list \<Rightarrow> nat" where
  "sizes_sum bs = sum_list (map (\<lambda>b. unat (bsize b)) bs)"

text \<open>No two neighbours in the list are both free: of any two, one is in use.\<close>

definition no_adjacent_free :: "mem_block list \<Rightarrow> bool" where
  "no_adjacent_free bs = successively (\<lambda>b n. used b \<or> used n) bs"

text \<open>
  What a caller does with the results: it keeps every non-null pointer an allocation
  returned until it passes that pointer to \<open>hal_mem_free\<close>. The second component lists
  the pointers the caller still holds.
\<close>

fun caller_step :: "hal_context option \<times> ptr list \<Rightarrow> mem_call \<Rightarrow> hal_context option \<times> ptr list" where
  "caller_step (ctx, held) (Alloc sz malloc_ok) =
     (case hal_mem_alloc ctx sz malloc_ok of
        (ctx', p) \<Rightarrow> (ctx', if p = NULL then held else p # held))"
| "caller_step (ctx, held) (Free p) = (hal_mem_free ctx p, remove1 p held)"

definition caller_run ::
  "hal_context option \<Rightarrow> mem_call list \<Rightarrow> hal_context option \<times> ptr list" where
  "caller_run ctx calls = foldl caller_step (ctx, []) calls"

text \<open>
  \<open>hal_mem_free\<close> on the block list as the design describes it: locate the first block
  at the address; if there is none or it is not in use, do nothing; otherwise mark it
  unused, absorb the block right after it if that one is free, and then let the block right
  before it absorb the result if that one is free.
\<close>

definition absorb_following :: "mem_block \<Rightarrow> mem_block list \<Rightarrow> mem_block list" where
  "absorb_following b post =
     (case post of
        [] \<Rightarrow> [b]
      | n # rest \<Rightarrow> if used n then b # n # rest else b\<lparr>bsize := bsize b + bsize n\<rparr> # rest)"

definition absorb_into_preceding :: "mem_block list \<Rightarrow> mem_block list \<Rightarrow> mem_block list" where
  "absorb_into_preceding pre rest =
     (case rev pre of
        [] \<Rightarrow> rest
      | q # front \<Rightarrow>
          if used q then pre @ rest
          else rev front @ q\<lparr>bsize := bsize q + bsize (hd rest)\<rparr> # tl rest)"

definition free_as_described :: "mem_block list \<Rightarrow> ptr \<Rightarrow> mem_block list" where
  "free_as_described bs p =
     (case dropWhile (\<lambda>b. addr b \<noteq> p) bs of
        [] \<Rightarrow> bs
      | b # post \<Rightarrow>
          if used b
          then absorb_into_preceding (takeWhile (\<lambda>b. addr b \<noteq> p) bs)
                 (absorb_following (b\<lparr>used := False\<rparr>) post)
          else bs)"

text \<open>A free block that is large enough for a request of \<open>sz\<close> bytes.\<close>

definition fits :: "size_t \<Rightarrow> mem_block \<Rightarrow> bool" where
  "fits sz b = (\<not> used b \<and> sz \<le> bsize b)"

text \<open>
  Position \<open>k\<close> holds the best fit: a fitting block, no fitting block is smaller, and
  every fitting block before it is strictly larger (of several smallest ones the scan keeps
  the first).
\<close>

definition best_fit_at :: "size_t \<Rightarrow> mem_block list \<Rightarrow> nat \<Rightarrow> bool" where
  "best_fit_at sz bs k =
     (k < length bs \<and> fits sz (bs ! k)
      \<and> (\<forall>j<length bs. fits sz (bs ! j) \<longrightarrow> bsize (bs ! k) \<le> bsize (bs ! j))
      \<and> (\<forall>j<k. fits sz (bs ! j) \<longrightarrow> bsize (bs ! k) < bsize (bs ! j)))"

text \<open>Rounding up to the next multiple of 64, on natural numbers.\<close>

definition round_up_64 :: "nat \<Rightarrow> nat" where
  "round_up_64 n = ((n + 63) div 64) * 64"

text \<open>The context with its block list replaced.\<close>

definition with_blocks :: "hal_context option \<Rightarrow> mem_block list \<Rightarrow> hal_context option" where
  "with_blocks ctx bs =
     map_option (\<lambda>c. c\<lparr>mem_ctx := map_option (\<lambda>m. m\<lparr>blocks := bs\<rparr>) (mem_ctx c)\<rparr>) ctx"

text \<open>The context exists and has an allocator context.\<close>

definition mem_ready :: "hal_context option \<Rightarrow> bool" where
  "mem_ready ctx = (case ctx of None \<Rightarrow> False | Some c \<Rightarrow> mem_ctx c \<noteq> None)"

text \<open>The alignment test of the unit tests: \<open>(ptr & (HAL_MEM_ALIGN - 1)) == 0\<close>.\<close>

definition aligned_64 :: "ptr \<Rightarrow> bool" where
  "aligned_64 p = (p AND (HAL_MEM_ALIGN - 1) = 0)"

text \<open>
  The context \<open>hal_init\<close> has built for \<open>sample_os\<close> when it calls \<open>hal_mem_init\<close>.
\<close>

definition sample_hal :: hal_context where
  "sample_hal =
     \<lparr>fd = 3, status = HAL_STATUS_READY, mapped_memory = Some [],
      accel_memory_base = sample_base, accel_memory_size = HAL_ACCEL_MEM_SIZE, mem_ctx = None\<rparr>"

text \<open>
  The fragmentation scenario of the unit tests: five allocations of 256 bytes, then the
  blocks at index 1 and 3 are freed through the pointers the allocations returned. The
  result is the five pointers and the context before the final 512-byte allocation.
\<close>

definition fragmentation_setup :: "hal_context option \<Rightarrow> ptr list \<times> hal_context option" where
  "fragmentation_setup c0 =
     (case hal_mem_alloc c0 256 True of (c1, p0) \<Rightarrow>
      case hal_mem_alloc c1 256 True of (c2, p1) \<Rightarrow>
      case hal_mem_alloc c2 256 True of (c3, p2) \<Rightarrow>
      case hal_mem_alloc c3 256 True of (c4, p3) \<Rightarrow>
      case hal_mem_alloc c4 256 True of (c5, p4) \<Rightarrow>
        ([p0, p1, p2, p3, p4], hal_mem_free (hal_mem_free c5 p1) p3))"

text \<open>
  The blocks tile the window from offset \<open>off\<close> on: each block starts where the one
  before it ends. Offsets are natural numbers; the address of a block is the base plus its
  offset in the 64-bit address space.
\<close>

fun laid_out :: "ptr \<Rightarrow> nat \<Rightarrow> mem_block list \<Rightarrow> bool" where
  "laid_out base off [] = True"
| "laid_out base off (b # bs) =
     (addr b = base + of_nat off \<and> laid_out base (off + unat (bsize b)) bs)"

text \<open>A call whose request, if it is an allocation, is at most \<open>SIZE_MAX - 63\<close> bytes.\<close>

fun small_request :: "mem_call \<Rightarrow> bool" where
  "small_request (Alloc sz malloc_ok) = (unat sz \<le> 2 ^ 64 - 64)"
| "small_request (Free p) = True"

text \<open>
  The pointers a caller holds are, without repetition, exactly the addresses of the blocks
  in use.
\<close>

definition held_matches :: "ptr list \<Rightarrow> mem_block list \<Rightarrow> bool" where
  "held_matches held bs = (distinct held \<and> set held = set (map addr (filter used bs)))"

section \<open>The polling wait\<close>

lemma status_after_shift:
  "status_after (c\<lparr>status := env k (status c)\<rparr>) (later (Suc k) env) j
     = status_after c (later k env) (Suc j)"
  by (induction j) (simp_all add: later_def)

lemma poll_ready_timeout:
  "(\<forall>j<n. \<not> ready_after c (later k env) j) \<Longrightarrow>
     poll_ready n c env k = (c\<lparr>status := status_after c (later k env) n\<rparr>, False, k + n)"
proof (induction n arbitrary: c k)
  case 0
  then show ?case by simp
next
  case (Suc n)
  let ?c = "c\<lparr>status := env k (status c)\<rparr>"
  from Suc.prems have "\<not> hal_is_ready (Some c)"
    by (auto simp: ready_after_def hal_is_ready_def dest: spec[of _ 0])
  moreover have "\<forall>j<n. \<not> ready_after ?c (later (Suc k) env) j"
    using Suc.prems by (auto simp: ready_after_def status_after_shift simp del: status_after.simps)
  then have "poll_ready n ?c env (Suc k)
      = (?c\<lparr>status := status_after ?c (later (Suc k) env) n\<rparr>, False, Suc k + n)"
    by (rule Suc.IH)
  ultimately show ?case
    by (simp add: status_after_shift del: status_after.simps)
qed

lemma poll_ready_success:
  "j < n \<Longrightarrow> ready_after c (later k env) j \<Longrightarrow> (\<forall>i<j. \<not> ready_after c (later k env) i) \<Longrightarrow>
     poll_ready n c env k = (c\<lparr>status := status_after c (later k env) j\<rparr>, True, k + j)"
proof (induction n arbitrary: c k j)
  case 0
  then show ?case by simp
next
  case (Suc n)
  let ?c = "c\<lparr>status := env k (status c)\<rparr>"
  show ?case
  proof (cases j)
    case 0
    with Suc.prems show ?thesis
      by (simp add: ready_after_def hal_is_ready_def)
  next
    case (Suc j')
    with Suc.prems have nr: "\<not> hal_is_ready (Some c)"
      by (auto simp: ready_after_def hal_is_ready_def dest: spec[of _ 0])
    have "poll_ready n ?c env (Suc k)
      = (?c\<lparr>status := status_after ?c (later (Suc k) env) j'\<rparr>, True, Suc k + j')"
    proof (rule Suc.IH)
      show "j' < n" using Suc.prems Suc by simp
      show "ready_after ?c (later (Suc k) env) j'"
        using Suc.prems(2) Suc
        by (simp add: ready_after_def status_after_shift del: status_after.simps)
      show "\<forall>i<j'. \<not> ready_after ?c (later (Suc k) env) i"
        using Suc.prems(3) Suc
        by (auto simp: ready_after_def status_after_shift simp del: status_after.simps)
    qed
    with nr Suc show ?thesis
      by (simp add: status_after_shift del: status_after.simps)
  qed
qed

lemma poll_ready_bound: "poll_ready n c env k = (c', r, k') \<Longrightarrow> k' \<le> k + n"
  by (induction n c env k rule: poll_ready.induct) (auto split: if_splits)

lemma later_0: "later 0 env = env"
  by (simp add: later_def fun_eq_iff)

lemma status_after_quiet: "status_after c quiet j = status c"
  by (induction j) (simp_all add: quiet_def)

lemma status_after_ready_in_150: "j \<le> 149 \<Longrightarrow> status_after c ready_in_150 j = status c"
  by (induction j) (simp_all add: ready_in_150_def)

lemma poll_ready_fields:
  "poll_ready n c env k = (c', r, k') \<Longrightarrow>
     mapped_memory c' = mapped_memory c \<and> mem_ctx c' = mem_ctx c \<and> fd c' = fd c
     \<and> accel_memory_base c' = accel_memory_base c \<and> accel_memory_size c' = accel_memory_size c"
  by (induction n c env k rule: poll_ready.induct) (auto split: if_splits)

lemma hal_wait_for_ready_window:
  "hal_wait_for_ready ctx env = (ctx', r, k) \<Longrightarrow>
     map_option mapped_memory ctx' = map_option mapped_memory ctx"
  by (auto simp: hal_wait_for_ready_def split: option.splits prod.splits dest: poll_ready_fields)

lemma sample_session_eq:
  "sample_session =
     \<lparr>hal = Some \<lparr>fd = 3, status = HAL_STATUS_READY, mapped_memory = Some [],
                  accel_memory_base = sample_base, accel_memory_size = HAL_ACCEL_MEM_SIZE,
                  mem_ctx = Some \<lparr>base_addr = sample_base, total_size = HAL_ACCEL_MEM_SIZE,
                     blocks = [\<lparr>addr = sample_base, bsize = HAL_ACCEL_MEM_SIZE,
                                used = False\<rparr>]\<rparr>\<rparr>,
      config = accel_config_zero, last_error = [], initialized = True\<rparr>"
  by (simp add: sample_session_def accel_init_def hal_init_def hal_mem_init_def sample_os_def
      g_ctx_zero_def)

lemma busy_session_wait:
  "hal_wait_for_ready (hal busy_session) quiet = (hal busy_session, False, 100)"
proof -
  obtain c where c: "hal busy_session = Some c" and st: "status c = HAL_STATUS_BUSY"
    by (simp add: busy_session_def sample_session_eq hal_set_status_def)
  have "\<forall>j<100. \<not> ready_after c (later 0 quiet) j"
    by (simp add: later_0 ready_after_def status_after_quiet st HAL_STATUS_BUSY_def
        HAL_STATUS_READY_def)
  then have "poll_ready 100 c quiet 0 = (c\<lparr>status := status_after c (later 0 quiet) 100\<rparr>, False, 0 + 100)"
    by (rule poll_ready_timeout)
  then show ?thesis
    by (simp add: c hal_wait_for_ready_def later_0 status_after_quiet)
qed

text \<open>
  When nobody else writes the status word the wait is decided by the word it starts with:
  success at the first poll, or failure after the whole budget of 100 polls.
\<close>

lemma hal_wait_for_ready_quiet:
  "hal_wait_for_ready (Some c) quiet
     = (Some c, hal_is_ready (Some c), if hal_is_ready (Some c) then 0 else 100)"
proof (cases "hal_is_ready (Some c)")
  case True
  then have "ready_after c (later 0 quiet) 0"
    by (simp add: ready_after_def hal_is_ready_def)
  then have "poll_ready 100 c quiet 0
      = (c\<lparr>status := status_after c (later 0 quiet) 0\<rparr>, True, 0 + 0)"
    by (intro poll_ready_success) simp_all
  with True show ?thesis
    by (simp add: hal_wait_for_ready_def)
next
  case False
  then have "\<forall>j<100. \<not> ready_after c (later 0 quiet) j"
    by (simp add: later_0 ready_after_def status_after_quiet hal_is_ready_def)
  then have "poll_ready 100 c quiet 0
      = (c\<lparr>status := status_after c (later 0 quiet) 100\<rparr>, False, 0 + 100)"
    by (rule poll_ready_timeout)
  with False show ?thesis
    by (simp add: hal_wait_for_ready_def later_0 status_after_quiet)
qed

text \<open>
  C6. For every context and environment \<open>hal_wait_for_ready\<close> returns, after at most 100
  sleeps. If none of the 100 polls finds the READY bit it returns false after the whole
  budget of 100 polls, each followed by one sleep of the fixed interval; if the poll after
  \<open>j\<close> sleeps (\<open>j < 100\<close>) is the first to find READY it returns true at that poll, with
  exactly \<open>j\<close> sleeps made.
\<close>

theorem wait_for_ready_bounded:
  "(\<exists>ctx' r k. hal_wait_for_ready ctx env = (ctx', r, k) \<and> k \<le> 100)
   \<and> ((\<forall>j<100. \<not> ready_after c env j) \<longrightarrow>
        hal_wait_for_ready (Some c) env
          = (Some (c\<lparr>status := status_after c env 100\<rparr>), False, 100))
   \<and> (\<forall>j<100. ready_after c env j \<and> (\<forall>i<j. \<not> ready_after c env i) \<longrightarrow>
        hal_wait_for_ready (Some c) env
          = (Some (c\<lparr>status := status_after c env j\<rparr>), True, j))"
proof (intro conjI allI impI)
  show "\<exists>ctx' r k. hal_wait_for_ready ctx env = (ctx', r, k) \<and> k \<le> 100"
    by (auto simp: hal_wait_for_ready_def split: option.splits prod.splits dest: poll_ready_bound)
  show "hal_wait_for_ready (Some c) env
          = (Some (c\<lparr>status := status_after c env 100\<rparr>), False, 100)"
    if "\<forall>j<100. \<not> ready_after c env j"
    using poll_ready_timeout[of 100 c 0 env] that
    by (simp add: hal_wait_for_ready_def later_0)
  show "hal_wait_for_ready (Some c) env = (Some (c\<lparr>status := status_after c env j\<rparr>), True, j)"
    if "j < 100" "ready_after c env j \<and> (\<forall>i<j. \<not> ready_after c env i)" for j
    using poll_ready_success[of j 100 c 0 env] that
    by (simp add: hal_wait_for_ready_def later_0)
qed

theorem wait_for_ready_bounded_witness:
  "list_all (\<lambda>j. \<not> ready_after (the (hal busy_session)) quiet j) [0..<100]
   \<and> hal_wait_for_ready (hal busy_session) quiet = (hal busy_session, False, 100)
   \<and> (0::nat) < 100 \<and> ready_after (the (hal sample_session)) quiet 0
   \<and> hal_wait_for_ready (hal sample_session) quiet = (hal sample_session, True, 0)"
proof -
  let ?b = "the (hal busy_session)"
  let ?s = "the (hal sample_session)"
  have b: "hal busy_session = Some ?b" and bs: "status ?b = HAL_STATUS_BUSY"
    by (simp_all add: busy_session_def sample_session_eq hal_set_status_def)
  have s: "hal sample_session = Some ?s" and ss: "status ?s = HAL_STATUS_READY"
    by (simp_all add: sample_session_eq)
  have nb: "\<forall>j<100. \<not> ready_after ?b quiet j"
    by (simp add: ready_after_def status_after_quiet bs HAL_STATUS_BUSY_def HAL_STATUS_READY_def)
  have rs: "ready_after ?s quiet 0"
    by (simp add: ready_after_def ss HAL_STATUS_READY_def)
  from wait_for_ready_bounded[of "hal busy_session" quiet ?b] nb
  have 1: "hal_wait_for_ready (Some ?b) quiet = (Some (?b\<lparr>status := status_after ?b quiet 100\<rparr>), False, 100)"
    by blast
  have 2: "hal_wait_for_ready (Some ?s) quiet = (Some (?s\<lparr>status := status_after ?s quiet 0\<rparr>), True, 0)"
    using wait_for_ready_bounded[of "hal sample_session" quiet ?s, THEN conjunct2, THEN conjunct2,
        rule_format, of 0] rs
    by simp
  from 1 2 nb rs show ?thesis
    by (simp add: status_after_quiet b[symmetric] s[symmetric] list_all_iff)
qed

section \<open>The register programmer\<close>

lemma sample_session_wait:
  "hal_wait_for_ready (hal sample_session) quiet = (hal sample_session, True, 0)"
  by (simp add: sample_session_eq hal_wait_for_ready_quiet hal_is_ready_def HAL_STATUS_READY_def)

text \<open>
  C4. Each of \<open>hal_configure_lsu\<close>, \<open>hal_configure_systolic\<close> and
  \<open>hal_configure_img2col\<close> waits with \<open>hal_wait_for_ready\<close> first. When that wait times
  out, the call returns failure, it hands back the context exactly as the wait left it, and
  the sequence of images written to the mapped register window is the one from before the
  call: no write, whole or partial, has been made. When the wait succeeds and the window is
  mapped, the call adds exactly one image to the window, the zeroed instruction record
  carrying the given configuration, on the context the wait left.
\<close>

theorem configure_timeout_no_write:
  "(hal_wait_for_ready ctx env = (ctx', False, k) \<longrightarrow>
      hal_configure_lsu ctx lsu env = (ctx', False, k)
    \<and> hal_configure_systolic ctx sys env = (ctx', False, k)
    \<and> hal_configure_img2col ctx i2c env = (ctx', False, k)
    \<and> map_option mapped_memory ctx' = map_option mapped_memory ctx)
 \<and> (hal_wait_for_ready ctx env = (Some c', True, k) \<and> mapped_memory c' = Some window \<longrightarrow>
      hal_configure_lsu ctx lsu env
        = (Some (c'\<lparr>mapped_memory := Some (ir_zero_with (IR_LSU lsu) # window)\<rparr>), True, k)
    \<and> hal_configure_systolic ctx sys env
        = (Some (c'\<lparr>mapped_memory := Some (ir_zero_with (IR_SYSTOLIC sys) # window)\<rparr>), True, k)
    \<and> hal_configure_img2col ctx i2c env
        = (Some (c'\<lparr>mapped_memory := Some (ir_zero_with (IR_IMG2COL i2c) # window)\<rparr>), True, k))"
proof (intro conjI impI)
  assume w: "hal_wait_for_ready ctx env = (ctx', False, k)"
  then show "hal_configure_lsu ctx lsu env = (ctx', False, k)"
    and "hal_configure_systolic ctx sys env = (ctx', False, k)"
    and "hal_configure_img2col ctx i2c env = (ctx', False, k)"
    by (auto simp: hal_configure_lsu_def hal_configure_systolic_def hal_configure_img2col_def
        write_config_def hal_wait_for_ready_def split: option.splits)
  from w show "map_option mapped_memory ctx' = map_option mapped_memory ctx"
    by (rule hal_wait_for_ready_window)
next
  assume w: "hal_wait_for_ready ctx env = (Some c', True, k) \<and> mapped_memory c' = Some window"
  then have "ctx \<noteq> None"
    by (cases ctx) (auto simp: hal_wait_for_ready_def)
  with w show "hal_configure_lsu ctx lsu env
        = (Some (c'\<lparr>mapped_memory := Some (ir_zero_with (IR_LSU lsu) # window)\<rparr>), True, k)"
    and "hal_configure_systolic ctx sys env
        = (Some (c'\<lparr>mapped_memory := Some (ir_zero_with (IR_SYSTOLIC sys) # window)\<rparr>), True, k)"
    and "hal_configure_img2col ctx i2c env
        = (Some (c'\<lparr>mapped_memory := Some (ir_zero_with (IR_IMG2COL i2c) # window)\<rparr>), True, k)"
    by (auto simp: hal_configure_lsu_def hal_configure_systolic_def hal_configure_img2col_def
        write_config_def)
qed

theorem configure_timeout_no_write_witness:
  "hal_wait_for_ready (hal busy_session) quiet = (hal busy_session, False, 100)
   \<and> hal_configure_lsu (hal busy_session) lsu_zero quiet = (hal busy_session, False, 100)
   \<and> hal_configure_systolic (hal busy_session) systolic_zero quiet
       = (hal busy_session, False, 100)
   \<and> hal_wait_for_ready (hal sample_session) quiet = (Some (the (hal sample_session)), True, 0)
   \<and> mapped_memory (the (hal sample_session)) = Some []
   \<and> hal_configure_lsu (hal sample_session) lsu_zero quiet
       = (Some ((the (hal sample_session))
                  \<lparr>mapped_memory := Some [ir_zero_with (IR_LSU lsu_zero)]\<rparr>), True, 0)"
proof -
  have s: "hal_wait_for_ready (hal sample_session) quiet
      = (Some (the (hal sample_session)), True, 0)"
    and m: "mapped_memory (the (hal sample_session)) = Some []"
    using sample_session_wait by (simp_all add: sample_session_eq)
  from configure_timeout_no_write[of "hal busy_session" quiet "hal busy_session" 100 lsu_zero
      systolic_zero _ "the (hal sample_session)" "[]", THEN conjunct1, rule_format,
      OF busy_session_wait]
  have 1: "hal_configure_lsu (hal busy_session) lsu_zero quiet = (hal busy_session, False, 100)"
    "hal_configure_systolic (hal busy_session) systolic_zero quiet
      = (hal busy_session, False, 100)"
    by simp_all
  from configure_timeout_no_write[of "hal sample_session" quiet _ 0 lsu_zero
      systolic_zero _ "the (hal sample_session)" "[]", THEN conjunct2, rule_format,
      OF conjI[OF s m]]
  have 2: "hal_configure_lsu (hal sample_session) lsu_zero quiet
       = (Some ((the (hal sample_session))
                  \<lparr>mapped_memory := Some [ir_zero_with (IR_LSU lsu_zero)]\<rparr>), True, 0)"
    by simp
  from busy_session_wait s m 1 2 show ?thesis
    by simp
qed

section \<open>The driver facade\<close>

text \<open>
  C5. \<open>accel_wait_complete\<close> with the timeout 0 that \<open>Runtime::SubmitAndWait\<close> passes for
  "wait indefinitely" does not wait until the device is ready. On a session whose status
  word is BUSY and whose device turns ready during the 150th sleep, every poll before that
  finds the device not ready, the device is ready after 150 sleeps, and the call has
  returned \<open>ACCEL_STATUS_TIMEOUT\<close> after its fixed budget of 100 polls.
\<close>

theorem wait_complete_ignores_timeout:
  "ready_after (the (hal busy_session)) ready_in_150 150
   \<and> list_all (\<lambda>j. \<not> ready_after (the (hal busy_session)) ready_in_150 j) [0..<150]
   \<and> accel_wait_complete busy_session 0 ready_in_150
       = (busy_session\<lparr>last_error := ''Operation timed out''\<rparr>, ACCEL_STATUS_TIMEOUT, 100)"
proof -
  let ?b = "the (hal busy_session)"
  have b: "hal busy_session = Some ?b" and bs: "status ?b = HAL_STATUS_BUSY"
    by (simp_all add: busy_session_def sample_session_eq hal_set_status_def)
  have init: "initialized busy_session"
    by (simp add: busy_session_def sample_session_eq)
  have "status_after ?b ready_in_150 (Suc 149)
      = ready_in_150 149 (status_after ?b ready_in_150 149)"
    by (rule status_after.simps)
  moreover have "Suc 149 = 150"
    by simp
  ultimately have "status_after ?b ready_in_150 150 = HAL_STATUS_READY"
    by (simp add: ready_in_150_def)
  then have r: "ready_after ?b ready_in_150 150"
    by (simp add: ready_after_def HAL_STATUS_READY_def)
  have n: "\<forall>j<150. \<not> ready_after ?b ready_in_150 j"
    by (simp add: ready_after_def status_after_ready_in_150 bs HAL_STATUS_BUSY_def
        HAL_STATUS_READY_def)
  then have "\<forall>j<100. \<not> ready_after ?b (later 0 ready_in_150) j"
    by (simp add: later_0)
  then have "poll_ready 100 ?b ready_in_150 0
      = (?b\<lparr>status := status_after ?b (later 0 ready_in_150) 100\<rparr>, False, 0 + 100)"
    by (rule poll_ready_timeout)
  then have "hal_wait_for_ready (Some ?b) ready_in_150 = (Some ?b, False, 100)"
    by (simp add: hal_wait_for_ready_def later_0 status_after_ready_in_150 bs[symmetric])
  then have "hal_wait_for_ready (hal busy_session) ready_in_150 = (hal busy_session, False, 100)"
    by (simp add: b[symmetric])
  with init have "accel_wait_complete busy_session 0 ready_in_150
       = (busy_session\<lparr>last_error := ''Operation timed out''\<rparr>, ACCEL_STATUS_TIMEOUT, 100)"
    by (simp add: accel_wait_complete_def)
  with r n show ?thesis by (simp add: list_all_iff)
qed

text \<open>
  C8. On a driver context that is not initialized, \<open>accel_submit_op\<close>,
  \<open>accel_wait_complete\<close>, \<open>accel_configure\<close>, \<open>accel_get_config\<close> and
  \<open>accel_reset_config\<close> return \<open>ACCEL_STATUS_NOT_INITIALIZED\<close> and leave the driver
  context, the HAL context in it, the register window and the caller's output record as
  they were, without a single sleep of a HAL wait. On an initialized one,
  \<open>accel_submit_op\<close> with a null \<open>params\<close> returns \<open>ACCEL_STATUS_INVALID_PARAM\<close>, again
  with nothing changed and nothing written.
\<close>

theorem facade_guards:
  "(\<not> initialized g \<longrightarrow>
      accel_submit_op g params env = (g, ACCEL_STATUS_NOT_INITIALIZED, 0)
    \<and> accel_wait_complete g t env = (g, ACCEL_STATUS_NOT_INITIALIZED, 0)
    \<and> accel_configure g cfg = (g, ACCEL_STATUS_NOT_INITIALIZED)
    \<and> accel_get_config g out = (out, ACCEL_STATUS_NOT_INITIALIZED)
    \<and> accel_reset_config g = (g, ACCEL_STATUS_NOT_INITIALIZED))
 \<and> (initialized g \<longrightarrow> accel_submit_op g None env = (g, ACCEL_STATUS_INVALID_PARAM, 0))"
  by (simp add: accel_submit_op_def accel_wait_complete_def accel_configure_def
      accel_get_config_def accel_reset_config_def)

theorem facade_guards_witness:
  "\<not> initialized g_ctx_zero
   \<and> accel_submit_op g_ctx_zero (Some (sample_params 2048)) quiet
       = (g_ctx_zero, ACCEL_STATUS_NOT_INITIALIZED, 0)
   \<and> accel_wait_complete g_ctx_zero 1000 quiet = (g_ctx_zero, ACCEL_STATUS_NOT_INITIALIZED, 0)
   \<and> accel_configure g_ctx_zero (Some accel_config_zero)
       = (g_ctx_zero, ACCEL_STATUS_NOT_INITIALIZED)
   \<and> accel_get_config g_ctx_zero (Some accel_config_zero)
       = (Some accel_config_zero, ACCEL_STATUS_NOT_INITIALIZED)
   \<and> accel_reset_config g_ctx_zero = (g_ctx_zero, ACCEL_STATUS_NOT_INITIALIZED)
   \<and> initialized sample_session
   \<and> accel_submit_op sample_session None quiet
       = (sample_session, ACCEL_STATUS_INVALID_PARAM, 0)"
proof -
  have z: "\<not> initialized g_ctx_zero"
    by (simp add: g_ctx_zero_def)
  have i: "initialized sample_session"
    by (simp add: sample_session_eq)
  from z i
    facade_guards[of g_ctx_zero "Some (sample_params 2048)" quiet 1000 "Some accel_config_zero"
      "Some accel_config_zero"]
    facade_guards[of sample_session None quiet 0 None None]
  show ?thesis by simp
qed

text \<open>
  \<open>accel_submit_op\<close> never reads the \<open>weights\<close> field, so neither do the two
  operations of the runtime wrapper, which pass their weights buffer in that field.
\<close>

lemma submit_op_weights:
  "accel_submit_op g (Some (p\<lparr>weights_buf := w\<rparr>)) env = accel_submit_op g (Some p) env"
proof -
  have lsu: "submit_lsu g' (p\<lparr>weights_buf := w\<rparr>) env k = submit_lsu g' p env k" for g' k
    by (simp add: submit_lsu_def)
  have "submit_systolic g (p\<lparr>weights_buf := w\<rparr>) opc env = submit_systolic g p opc env" for opc
    by (simp add: submit_systolic_def lsu split: prod.splits)
  then show ?thesis
    by (simp add: accel_submit_op_def split: accel_op_type_t.splits)
qed

lemma runtime_ignores_weights:
  "MatrixMultiply g inp w outp env = MatrixMultiply g inp w' outp env"
  "Convolution2D g inp w outp env = Convolution2D g inp w' outp env"
proof -
  have "SubmitAndWait g \<lparr>op_type = t, input_buf = inp, output_buf = outp, weights_buf = w,
            flags = 0\<rparr> env
      = SubmitAndWait g \<lparr>op_type = t, input_buf = inp, output_buf = outp, weights_buf = w',
            flags = 0\<rparr> env" for t
    using submit_op_weights[where g = g and env = env and w = w' and
        p = "\<lparr>op_type = t, input_buf = inp, output_buf = outp, weights_buf = w, flags = 0\<rparr>"]
    by (simp add: SubmitAndWait_def)
  then show "MatrixMultiply g inp w outp env = MatrixMultiply g inp w' outp env"
    and "Convolution2D g inp w outp env = Convolution2D g inp w' outp env"
    by (simp_all add: MatrixMultiply_def Convolution2D_def)
qed

text \<open>
  C10. On an initialized session, two parameter records that agree on \<open>op_type\<close>,
  \<open>flags\<close>, \<open>input\<close> and \<open>output\<close> make \<open>accel_submit_op\<close> return the same status
  and the same driver context, hence the same sequence of images written to the register
  window, whatever their \<open>weights\<close> buffers are.
\<close>

theorem submit_ignores_weights:
  assumes "initialized g"
    and "op_type p = op_type p'" and "flags p = flags p'"
    and "input_buf p = input_buf p'" and "output_buf p = output_buf p'"
  shows "accel_submit_op g (Some p) env = accel_submit_op g (Some p') env"
proof -
  have lsu: "submit_lsu g' p env k = submit_lsu g' p' env k" for g' k
    using assms by (simp add: submit_lsu_def)
  have "submit_systolic g p opc env = submit_systolic g p' opc env" for opc
    using assms by (simp add: submit_systolic_def lsu split: prod.splits)
  then show ?thesis
    using assms by (simp add: accel_submit_op_def split: accel_op_type_t.splits)
qed

theorem submit_ignores_weights_witness:
  "initialized sample_session
   \<and> weights_buf (sample_params 2048) \<noteq> weights_buf (sample_params 4096)
   \<and> accel_submit_op sample_session (Some (sample_params 2048)) quiet
       = accel_submit_op sample_session (Some (sample_params 4096)) quiet"
proof -
  have i: "initialized sample_session"
    by (simp add: sample_session_eq)
  have "accel_submit_op sample_session (Some (sample_params 2048)) quiet
       = accel_submit_op sample_session (Some (sample_params 4096)) quiet"
    by (rule submit_ignores_weights[OF i]) (simp_all add: sample_params_def)
  moreover have "weights_buf (sample_params 2048) \<noteq> weights_buf (sample_params 4096)"
    by (simp add: sample_params_def sample_buffer_def)
  ultimately show ?thesis using i by simp
qed

section \<open>The block list\<close>

subsection \<open>Searching and merging\<close>

lemma find_block_split:
  "find_block p pre bs = Some (pre', b, post) \<Longrightarrow>
     addr b = p \<and> (\<exists>mid. pre' = pre @ mid \<and> bs = mid @ b # post \<and> (\<forall>x\<in>set mid. addr x \<noteq> p))"
proof (induction bs arbitrary: pre)
  case Nil
  then show ?case by simp
next
  case (Cons a bs)
  show ?case
  proof (cases "addr a = p")
    case True
    with Cons.prems show ?thesis by simp
  next
    case False
    with Cons.prems have "find_block p (pre @ [a]) bs = Some (pre', b, post)" by simp
    from Cons.IH[OF this] obtain mid where
      "addr b = p" "pre' = (pre @ [a]) @ mid" "bs = mid @ b # post" "\<forall>x\<in>set mid. addr x \<noteq> p"
      by blast
    with False show ?thesis
      by (intro conjI exI[of _ "a # mid"]) simp_all
  qed
qed

lemma find_block_None: "find_block p pre bs = None \<Longrightarrow> \<forall>x\<in>set bs. addr x \<noteq> p"
  by (induction bs arbitrary: pre) (auto split: if_splits)

lemma find_block_Some:
  "find_block p [] bs = Some (pre, b, post) \<Longrightarrow>
     bs = pre @ b # post \<and> addr b = p \<and> (\<forall>x\<in>set pre. addr x \<noteq> p)"
  by (drule find_block_split) auto

lemma merge_next_props:
  "merge_next b post = (b', post') \<Longrightarrow>
     used b' = used b \<and> addr b' = addr b
     \<and> (post' = [] \<or> used (hd post'))
     \<and> (\<exists>gone. post = gone @ post' \<and> (\<forall>x\<in>set gone. \<not> used x)
           \<and> bsize b' = bsize b + sum_list (map bsize gone))"
proof (induction post arbitrary: b)
  case Nil
  then show ?case by simp
next
  case (Cons n rest)
  show ?case
  proof (cases "used n")
    case True
    with Cons.prems show ?thesis by auto
  next
    case False
    with Cons.prems have "merge_next (b\<lparr>bsize := bsize b + bsize n\<rparr>) rest = (b', post')"
      by simp
    from Cons.IH[OF this] obtain gone where
      g: "used b' = used b" "addr b' = addr b" "post' = [] \<or> used (hd post')"
      "rest = gone @ post'" "\<forall>x\<in>set gone. \<not> used x"
      "bsize b' = bsize b + bsize n + sum_list (map bsize gone)"
      by auto
    with False show ?thesis
      by (intro conjI exI[of _ "n # gone"]) (simp_all add: add.assoc)
  qed
qed

lemma successively_snocD:
  "successively P xs \<Longrightarrow> xs \<noteq> [] \<Longrightarrow>
     successively P (butlast xs) \<and> (butlast xs = [] \<or> P (last (butlast xs)) (last xs))"
  by (cases xs rule: rev_cases) (auto simp: successively_append_iff)

lemma no_adjacent_free_free_blocks:
  assumes "no_adjacent_free bs"
  shows "no_adjacent_free (free_blocks bs p)"
proof (cases "find_block p [] bs")
  case None
  with assms show ?thesis by (simp add: free_blocks_def)
next
  case (Some t)
  obtain pre b post where t: "t = (pre, b, post)" by (cases t)
  from Some t have bs: "bs = pre @ b # post" by (auto dest: find_block_Some)
  show ?thesis
  proof (cases "used b")
    case False
    with Some t assms show ?thesis by (simp add: free_blocks_def)
  next
    case True
    obtain b' post' where m: "merge_next (b\<lparr>used := False\<rparr>) post = (b', post')"
      by (cases "merge_next (b\<lparr>used := False\<rparr>) post")
    from merge_next_props[OF m] obtain gone where
      g: "\<not> used b'" "post' = [] \<or> used (hd post')" "post = gone @ post'"
      by auto
    from assms bs g have sp: "successively (\<lambda>b n. used b \<or> used n) pre"
      and spo: "successively (\<lambda>b n. used b \<or> used n) post'"
      by (auto simp: no_adjacent_free_def successively_append_iff successively_Cons)
    show ?thesis
    proof (cases "pre \<noteq> [] \<and> \<not> used (last pre)")
      case False
      with Some t True m g sp spo show ?thesis
        by (auto simp: free_blocks_def no_adjacent_free_def successively_append_iff
            successively_Cons)
    next
      case pf: True
      with successively_snocD[OF sp]
      have "successively (\<lambda>b n. used b \<or> used n) (butlast pre)"
        and "butlast pre = [] \<or> used (last (butlast pre))"
        by auto
      with Some t True m g pf spo show ?thesis
        by (auto simp: free_blocks_def no_adjacent_free_def successively_append_iff
            successively_Cons)
    qed
  qed
qed

subsection \<open>The best-fit scan\<close>

lemma find_best_fit_char:
  "find_best_fit sz bs i best bsz = r \<Longrightarrow>
     (r = best \<and> (\<forall>b\<in>set bs. \<not> (fits sz b \<and> bsize b < bsz)))
     \<or> (\<exists>k<length bs. r = Some (i + k) \<and> fits sz (bs ! k) \<and> bsize (bs ! k) < bsz
           \<and> (\<forall>j<length bs. fits sz (bs ! j) \<longrightarrow> bsize (bs ! k) \<le> bsize (bs ! j))
           \<and> (\<forall>j<k. fits sz (bs ! j) \<longrightarrow> bsize (bs ! k) < bsize (bs ! j)))"
proof (induction bs arbitrary: i best bsz)
  case Nil
  then show ?case by simp
next
  case (Cons b bs)
  show ?case
  proof (cases "fits sz b \<and> bsize b < bsz")
    case True
    with Cons.prems have "find_best_fit sz bs (Suc i) (Some i) (bsize b) = r"
      by (simp add: fits_def)
    from Cons.IH[OF this] show ?thesis
    proof (elim disjE conjE exE)
      assume "r = Some i" and none: "\<forall>x\<in>set bs. \<not> (fits sz x \<and> bsize x < bsize b)"
      have "\<forall>j<length (b # bs). fits sz ((b # bs) ! j) \<longrightarrow> bsize b \<le> bsize ((b # bs) ! j)"
        using none by (auto simp: less_Suc_eq_0_disj)
      with True \<open>r = Some i\<close> show ?thesis
        by (intro disjI2 exI[of _ 0]) simp
    next
      fix k
      assume k: "k < length bs" "r = Some (Suc i + k)" "fits sz (bs ! k)"
        "bsize (bs ! k) < bsize b"
        "\<forall>j<length bs. fits sz (bs ! j) \<longrightarrow> bsize (bs ! k) \<le> bsize (bs ! j)"
        "\<forall>j<k. fits sz (bs ! j) \<longrightarrow> bsize (bs ! k) < bsize (bs ! j)"
      with True show ?thesis
        by (intro disjI2 exI[of _ "Suc k"]) (auto simp: less_Suc_eq_0_disj)
    qed
  next
    case False
    with Cons.prems have "find_best_fit sz bs (Suc i) best bsz = r"
      by (auto simp: fits_def)
    from Cons.IH[OF this] show ?thesis
    proof (elim disjE conjE exE)
      assume "r = best" "\<forall>x\<in>set bs. \<not> (fits sz x \<and> bsize x < bsz)"
      with False show ?thesis by auto
    next
      fix k
      assume k: "k < length bs" "r = Some (Suc i + k)" "fits sz (bs ! k)"
        "bsize (bs ! k) < bsz"
        "\<forall>j<length bs. fits sz (bs ! j) \<longrightarrow> bsize (bs ! k) \<le> bsize (bs ! j)"
        "\<forall>j<k. fits sz (bs ! j) \<longrightarrow> bsize (bs ! k) < bsize (bs ! j)"
      with False show ?thesis
        by (intro disjI2 exI[of _ "Suc k"]) (auto simp: less_Suc_eq_0_disj)
    qed
  qed
qed

lemma find_best_fit_None:
  "\<forall>b\<in>set bs. \<not> (fits sz b \<and> bsize b < SIZE_MAX) \<Longrightarrow> find_best_fit sz bs 0 None SIZE_MAX = None"
  using find_best_fit_char[of sz bs 0 None SIZE_MAX "find_best_fit sz bs 0 None SIZE_MAX"]
  by auto

lemma find_best_fit_Some:
  "find_best_fit sz bs 0 None SIZE_MAX = Some k \<Longrightarrow> best_fit_at sz bs k \<and> bsize (bs ! k) < SIZE_MAX"
  using find_best_fit_char[of sz bs 0 None SIZE_MAX "Some k"]
  by (auto simp: best_fit_at_def)

lemma best_fit_at_unique: "best_fit_at sz bs k \<Longrightarrow> best_fit_at sz bs k' \<Longrightarrow> k = k'"
  unfolding best_fit_at_def
  by (metis linorder_neqE_nat not_less)

lemma find_best_fit_best:
  assumes "best_fit_at sz bs k" "bsize (bs ! k) < SIZE_MAX"
  shows "find_best_fit sz bs 0 None SIZE_MAX = Some k"
proof (cases "find_best_fit sz bs 0 None SIZE_MAX")
  case None
  with find_best_fit_char[of sz bs 0 None SIZE_MAX None] assms show ?thesis
    by (auto simp: best_fit_at_def)
next
  case (Some k')
  with find_best_fit_Some[OF Some] assms best_fit_at_unique show ?thesis by blast
qed

subsection \<open>Allocation and release keep the sizes and the free-block separation\<close>

lemma alloc_blocks_shape:
  assumes "alloc_blocks bs sz ok = (bs', p)"
  shows "bs' = bs
       \<or> (\<exists>pre b post. bs = pre @ b # post \<and> fits sz b \<and> p = addr b
            \<and> (bs' = pre @ b\<lparr>used := True\<rparr> # post
               \<or> bs' = pre @ b\<lparr>bsize := sz, used := True\<rparr>
                        # \<lparr>addr = addr b + sz, bsize = bsize b - sz, used = False\<rparr> # post))"
proof (cases "find_best_fit sz bs 0 None SIZE_MAX")
  case None
  with assms show ?thesis by (simp add: alloc_blocks_def)
next
  case (Some k)
  from find_best_fit_Some[OF Some] have k: "k < length bs" "fits sz (bs ! k)"
    by (simp_all add: best_fit_at_def)
  then have bs: "bs = take k bs @ bs ! k # drop (Suc k) bs"
    by (simp add: id_take_nth_drop)
  have upd: "bs[k := x] = take k bs @ x # drop (Suc k) bs" for x
    using k by (simp add: upd_conv_take_nth_drop)
  from assms Some have
    "bs' = bs \<or> (p = addr (bs ! k)
        \<and> (bs' = take k bs @ (bs ! k)\<lparr>used := True\<rparr> # drop (Suc k) bs
           \<or> bs' = take k bs @ (bs ! k)\<lparr>bsize := sz, used := True\<rparr>
                        # \<lparr>addr = addr (bs ! k) + sz, bsize = bsize (bs ! k) - sz, used = False\<rparr>
                        # drop (Suc k) bs))"
    by (auto simp: alloc_blocks_def Let_def upd split: if_splits)
  with k bs show ?thesis by blast
qed

lemma sizes_sum_append [simp]: "sizes_sum (xs @ ys) = sizes_sum xs + sizes_sum ys"
  by (simp add: sizes_sum_def)

lemma sizes_sum_Cons [simp]: "sizes_sum (x # xs) = unat (bsize x) + sizes_sum xs"
  by (simp add: sizes_sum_def)

lemma sizes_sum_Nil [simp]: "sizes_sum [] = 0"
  by (simp add: sizes_sum_def)

lemma sizes_sum_alloc_blocks:
  assumes "alloc_blocks bs sz ok = (bs', p)"
  shows "sizes_sum bs' = sizes_sum bs"
  using alloc_blocks_shape[OF assms]
  by (auto simp: fits_def unat_sub word_le_nat_alt)

lemma no_adjacent_free_alloc_blocks:
  assumes "alloc_blocks bs sz ok = (bs', p)" "no_adjacent_free bs"
  shows "no_adjacent_free bs'"
  using alloc_blocks_shape[OF assms(1)] assms(2)
  by (auto simp: fits_def no_adjacent_free_def successively_append_iff successively_Cons)

lemma merge_next_sizes:
  "merge_next b post = (b', post') \<Longrightarrow> unat (bsize b) + sizes_sum post < 2 ^ 64 \<Longrightarrow>
     unat (bsize b') + sizes_sum post' = unat (bsize b) + sizes_sum post"
proof (induction post arbitrary: b)
  case Nil
  then show ?case by simp
next
  case (Cons n rest)
  show ?case
  proof (cases "used n")
    case True
    with Cons.prems show ?thesis by auto
  next
    case False
    from Cons.prems(2) have "unat (bsize b) + unat (bsize n) < 2 ^ LENGTH(64)" by simp
    then have u: "unat (bsize b + bsize n) = unat (bsize b) + unat (bsize n)"
      by (simp only: unat_add_lem)
    from False Cons.prems have "merge_next (b\<lparr>bsize := bsize b + bsize n\<rparr>) rest = (b', post')"
      by simp
    from Cons.IH[OF this] u Cons.prems(2) show ?thesis by simp
  qed
qed

lemma sizes_sum_free_blocks:
  assumes "sizes_sum bs < 2 ^ 64"
  shows "sizes_sum (free_blocks bs p) = sizes_sum bs"
proof (cases "find_block p [] bs")
  case None
  then show ?thesis by (simp add: free_blocks_def)
next
  case (Some t)
  obtain pre b post where t: "t = (pre, b, post)" by (cases t)
  from Some t have bs: "bs = pre @ b # post" by (auto dest: find_block_Some)
  obtain b' post' where m: "merge_next (b\<lparr>used := False\<rparr>) post = (b', post')"
    by (cases "merge_next (b\<lparr>used := False\<rparr>) post")
  from assms bs have "unat (bsize (b\<lparr>used := False\<rparr>)) + sizes_sum post < 2 ^ 64" by simp
  from merge_next_sizes[OF m this]
  have s: "unat (bsize b') + sizes_sum post' = unat (bsize b) + sizes_sum post" by simp
  show ?thesis
  proof (cases "pre \<noteq> [] \<and> \<not> used (last pre)")
    case False
    with Some t m s bs show ?thesis
      by (auto simp: free_blocks_def)
  next
    case True
    then have pre: "pre = butlast pre @ [last pre]" by simp
    have "sizes_sum pre = sizes_sum (butlast pre) + unat (bsize (last pre))"
      by (subst pre) simp
    moreover from this assms bs s
    have "unat (bsize (last pre)) + unat (bsize b') < 2 ^ LENGTH(64)" by simp
    then have "unat (bsize (last pre) + bsize b') = unat (bsize (last pre)) + unat (bsize b')"
      by (simp only: unat_add_lem)
    ultimately show ?thesis
      using Some t m s bs True by (auto simp: free_blocks_def)
  qed
qed

subsection \<open>From the block list to the context\<close>

lemma alloc_blocks_Nil: "alloc_blocks [] sz ok = ([], NULL)"
  by (simp add: alloc_blocks_def)

lemma free_blocks_Nil: "free_blocks [] p = []"
  by (simp add: free_blocks_def)

lemma ctx_blocks_alloc:
  "ctx_blocks (fst (hal_mem_alloc ctx sz ok))
     = (if sz = 0 then ctx_blocks ctx else fst (alloc_blocks (ctx_blocks ctx) (align_size sz) ok))"
  by (auto simp: hal_mem_alloc_def ctx_blocks_def alloc_blocks_Nil split: option.splits prod.splits)

lemma ctx_blocks_free:
  "ctx_blocks (hal_mem_free ctx p)
     = (if p = NULL then ctx_blocks ctx else free_blocks (ctx_blocks ctx) p)"
  by (auto simp: hal_mem_free_def ctx_blocks_def free_blocks_Nil split: option.splits)

lemma ctx_blocks_fresh:
  "ctx_blocks (fresh_allocator c base sz) = [\<lparr>addr = base, bsize = sz, used = False\<rparr>]"
  by (simp add: fresh_allocator_def hal_mem_init_def ctx_blocks_def)

lemma run_calls_snoc: "run_calls ctx (calls @ [x]) = apply_call (run_calls ctx calls) x"
  by (simp add: run_calls_def)

lemma run_calls_Nil: "run_calls ctx [] = ctx"
  by (simp add: run_calls_def)

lemma sizes_sum_apply_call:
  "sizes_sum (ctx_blocks ctx) < 2 ^ 64 \<Longrightarrow>
     sizes_sum (ctx_blocks (apply_call ctx x)) = sizes_sum (ctx_blocks ctx)"
proof (cases x)
  case (Alloc sz ok)
  obtain bs' p where "alloc_blocks (ctx_blocks ctx) (align_size sz) ok = (bs', p)"
    by (cases "alloc_blocks (ctx_blocks ctx) (align_size sz) ok")
  with Alloc sizes_sum_alloc_blocks[OF this] show ?thesis
    by (simp add: ctx_blocks_alloc)
next
  case (Free p)
  assume "sizes_sum (ctx_blocks ctx) < 2 ^ 64"
  with Free show ?thesis
    by (simp add: ctx_blocks_free sizes_sum_free_blocks)
qed

text \<open>
  After every sequence of calls on a fresh allocator the block sizes add up to the window
  size, without wrap-around and whatever the requests were.
\<close>

lemma sizes_sum_run_calls:
  "sizes_sum (ctx_blocks (run_calls (fresh_allocator c base sz) calls)) = unat sz"
proof (induction calls rule: rev_induct)
  case Nil
  show ?case by (simp add: run_calls_Nil ctx_blocks_fresh)
next
  case (snoc x calls)
  have "unat sz < 2 ^ 64"
    using unsigned_less[of sz, where 'a = nat] by simp
  with snoc show ?case
    by (simp add: run_calls_snoc sizes_sum_apply_call)
qed

lemma no_adjacent_free_apply_call:
  "no_adjacent_free (ctx_blocks ctx) \<Longrightarrow> no_adjacent_free (ctx_blocks (apply_call ctx x))"
proof (cases x)
  case (Alloc sz ok)
  assume a: "no_adjacent_free (ctx_blocks ctx)"
  obtain bs' p where "alloc_blocks (ctx_blocks ctx) (align_size sz) ok = (bs', p)"
    by (cases "alloc_blocks (ctx_blocks ctx) (align_size sz) ok")
  with Alloc a no_adjacent_free_alloc_blocks[OF this a] show ?thesis
    by (simp add: ctx_blocks_alloc)
next
  case (Free p)
  assume "no_adjacent_free (ctx_blocks ctx)"
  with Free show ?thesis
    by (simp add: ctx_blocks_free no_adjacent_free_free_blocks)
qed

text \<open>After every sequence of calls no two neighbours are both free.\<close>

lemma no_adjacent_free_run_calls:
  "no_adjacent_free (ctx_blocks (run_calls (fresh_allocator c base sz) calls))"
proof (induction calls rule: rev_induct)
  case Nil
  show ?case by (simp add: run_calls_Nil ctx_blocks_fresh no_adjacent_free_def)
next
  case (snoc x calls)
  then show ?case
    by (simp add: run_calls_snoc no_adjacent_free_apply_call)
qed

lemma find_block_takeWhile:
  "find_block p [] bs = Some (pre, b, post) \<Longrightarrow>
     takeWhile (\<lambda>b. addr b \<noteq> p) bs = pre \<and> dropWhile (\<lambda>b. addr b \<noteq> p) bs = b # post"
  by (drule find_block_Some) (simp add: takeWhile_append2 dropWhile_append2)

lemma find_block_dropWhile_None:
  "find_block p [] bs = None \<Longrightarrow> dropWhile (\<lambda>b. addr b \<noteq> p) bs = []"
  by (drule find_block_None) simp

lemma merge_next_single:
  assumes "no_adjacent_free post"
  shows "merge_next b post = (hd (absorb_following b post), tl (absorb_following b post))"
proof (cases post)
  case Nil
  then show ?thesis by (simp add: absorb_following_def)
next
  case (Cons n rest)
  show ?thesis
  proof (cases "used n")
    case True
    with Cons show ?thesis by (simp add: absorb_following_def)
  next
    case False
    with assms Cons have "rest = [] \<or> used (hd rest)"
      by (auto simp: no_adjacent_free_def successively_Cons)
    then have "merge_next (b\<lparr>bsize := bsize b + bsize n\<rparr>) rest
        = (b\<lparr>bsize := bsize b + bsize n\<rparr>, rest)"
      by (cases rest) auto
    with Cons False show ?thesis by (simp add: absorb_following_def)
  qed
qed

text \<open>
  Where no two neighbours are both free, the merge loop of \<open>hal_mem_free\<close> absorbs at
  most one block, and the function is the described one.
\<close>

lemma free_blocks_as_described:
  assumes "no_adjacent_free bs"
  shows "free_blocks bs p = free_as_described bs p"
proof (cases "find_block p [] bs")
  case None
  then show ?thesis
    by (simp add: free_blocks_def free_as_described_def find_block_dropWhile_None)
next
  case (Some t)
  obtain pre b post where t: "t = (pre, b, post)" by (cases t)
  from Some t have f: "find_block p [] bs = Some (pre, b, post)" by simp
  note tw = find_block_takeWhile[OF f]
  from find_block_Some[OF f] assms have "no_adjacent_free post"
    by (auto simp: no_adjacent_free_def successively_append_iff successively_Cons)
  note m = merge_next_single[OF this, of "b\<lparr>used := False\<rparr>"]
  have ne: "absorb_following (b\<lparr>used := False\<rparr>) post \<noteq> []"
    by (simp add: absorb_following_def split: list.splits)
  show ?thesis
  proof (cases "used b")
    case False
    with f tw show ?thesis by (simp add: free_blocks_def free_as_described_def)
  next
    case True
    show ?thesis
    proof (cases pre rule: rev_cases)
      case Nil
      with f tw True m ne show ?thesis
        by (simp add: free_blocks_def free_as_described_def absorb_into_preceding_def)
    next
      case (snoc front q)
      with f tw True m ne show ?thesis
        by (simp add: free_blocks_def free_as_described_def absorb_into_preceding_def)
    qed
  qed
qed

lemma with_blocks_same: "with_blocks ctx (ctx_blocks ctx) = ctx"
  by (cases ctx) (auto simp: with_blocks_def ctx_blocks_def split: option.splits)

lemma hal_mem_free_with_blocks:
  "hal_mem_free ctx p = (if p = NULL then ctx else with_blocks ctx (free_blocks (ctx_blocks ctx) p))"
  by (cases ctx)
    (auto simp: hal_mem_free_def with_blocks_def ctx_blocks_def free_blocks_Nil split: option.splits)

lemma hal_mem_alloc_with_blocks:
  "mem_ready ctx \<Longrightarrow> sz \<noteq> 0 \<Longrightarrow>
     hal_mem_alloc ctx sz ok
       = (with_blocks ctx (fst (alloc_blocks (ctx_blocks ctx) (align_size sz) ok)),
          snd (alloc_blocks (ctx_blocks ctx) (align_size sz) ok))"
  by (cases ctx)
    (auto simp: hal_mem_alloc_def with_blocks_def ctx_blocks_def mem_ready_def
      split: option.splits prod.splits)

lemma mem_ready_apply_call: "mem_ready ctx \<Longrightarrow> mem_ready (apply_call ctx x)"
  by (cases x; cases ctx)
    (auto simp: mem_ready_def hal_mem_alloc_def hal_mem_free_def split: option.splits prod.splits)

lemma mem_ready_run_calls: "mem_ready (run_calls (fresh_allocator c base sz) calls)"
proof (induction calls rule: rev_induct)
  case Nil
  show ?case
    by (simp add: run_calls_Nil fresh_allocator_def hal_mem_init_def mem_ready_def)
next
  case (snoc x calls)
  then show ?case
    by (simp add: run_calls_snoc mem_ready_apply_call)
qed

lemma sizes_sum_member: "b \<in> set bs \<Longrightarrow> unat (bsize b) \<le> sizes_sum bs"
  by (induction bs) auto

lemma alloc_blocks_no_fit:
  "\<forall>b\<in>set bs. \<not> fits sz b \<Longrightarrow> alloc_blocks bs sz ok = (bs, NULL)"
  by (simp add: alloc_blocks_def find_best_fit_None)

lemma alloc_blocks_best_fit:
  assumes "best_fit_at sz bs k" "bsize (bs ! k) < SIZE_MAX"
  shows "alloc_blocks bs sz ok =
     (if sz + sizeof_mem_block + HAL_MEM_ALIGN < bsize (bs ! k)
      then (if ok
            then (take k bs
                  @ [(bs ! k)\<lparr>bsize := sz, used := True\<rparr>,
                     \<lparr>addr = addr (bs ! k) + sz, bsize = bsize (bs ! k) - sz, used = False\<rparr>]
                  @ drop (Suc k) bs, addr (bs ! k))
            else (bs, NULL))
      else (bs[k := (bs ! k)\<lparr>used := True\<rparr>], addr (bs ! k)))"
  by (simp add: alloc_blocks_def find_best_fit_best[OF assms] Let_def)

lemma split_test_nat:
  fixes sz bsz :: size_t
  assumes "sz \<le> bsz" "unat bsz < 2 ^ 64 - 64" "64 dvd unat sz"
  shows "sz + sizeof_mem_block + HAL_MEM_ALIGN < bsz
     \<longleftrightarrow> unat sz + unat sizeof_mem_block + unat HAL_MEM_ALIGN < unat bsz"
proof -
  from assms have "unat sz \<le> unat bsz"
    by (simp add: word_le_nat_alt)
  moreover obtain m where m: "unat sz = 64 * m"
    using assms(3) by (auto elim: dvdE)
  ultimately have "64 * m < 64 * (2 ^ 58 - 1)"
    using assms(2) by simp
  then have "m < 2 ^ 58 - 1"
    by (simp only: mult_less_cancel1)
  then have "unat sz + 96 < 2 ^ 64"
    by (simp add: m)
  then have "unat sz + unat (96::64 word) < 2 ^ LENGTH(64)"
    by simp
  then have "unat (sz + 96) = unat sz + 96"
    by (simp only: unat_add_lem) simp
  then show ?thesis
    by (simp add: sizeof_mem_block_def HAL_MEM_ALIGN_def word_less_nat_alt add.assoc)
qed

subsection \<open>Rounding and alignment\<close>

lemma and_not_63: "(y::64 word) AND NOT 63 = (y div 64) * 64"
proof -
  have "(63::64 word) = mask 6"
    by (simp add: mask_eq_exp_minus_1)
  moreover have "y AND NOT (mask 6) = push_bit 6 (drop_bit 6 y)"
    by (rule bit_eqI) (auto simp: bit_simps)
  ultimately show ?thesis
    by (simp add: push_bit_eq_mult drop_bit_eq_div)
qed

lemma align_size_alt: "align_size sz = ((sz + 63) div 64) * 64"
proof -
  have "HAL_MEM_ALIGN - 1 = (63::64 word)" and "sz + HAL_MEM_ALIGN - 1 = sz + 63"
    by (simp_all add: HAL_MEM_ALIGN_def)
  then have "align_size sz = (sz + 63) AND NOT 63"
    by (simp only: align_size_def)
  then show ?thesis
    by (simp only: and_not_63)
qed

text \<open>
  Up to \<open>SIZE_MAX - 63\<close> the function \<open>align_size\<close> rounds up to the next multiple of
  64. Above that bound \<open>size + 63\<close> wraps around and the result is 0.
\<close>

lemma unat_align_size:
  assumes "unat sz \<le> 2 ^ 64 - 64"
  shows "unat (align_size sz) = round_up_64 (unat sz)"
proof -
  have "unat sz + unat (63::64 word) < 2 ^ LENGTH(64)"
    using assms by simp
  then have y: "unat (sz + 63) = unat sz + 63"
    by (simp only: unat_add_lem) simp
  have "unat ((sz + 63) div 64) = (unat sz + 63) div 64"
    by (simp add: unat_div y)
  moreover have "unat ((sz + 63) div 64) * unat (64::64 word) < 2 ^ LENGTH(64)"
    using assms by (simp add: unat_div y)
  then have "unat ((sz + 63) div 64 * 64) = unat ((sz + 63) div 64) * unat (64::64 word)"
    by (simp only: unat_mult_lem)
  ultimately show ?thesis
    by (simp add: align_size_alt round_up_64_def)
qed

lemma aligned_64_dvd: "aligned_64 p \<longleftrightarrow> 64 dvd p"
proof -
  have "HAL_MEM_ALIGN - 1 = (mask 6 :: 64 word)"
    by (simp add: mask_eq_exp_minus_1 HAL_MEM_ALIGN_def)
  then have "aligned_64 p \<longleftrightarrow> take_bit 6 p = 0"
    by (simp only: aligned_64_def take_bit_eq_mask)
  also have "\<dots> \<longleftrightarrow> 2 ^ 6 dvd p"
    by (rule take_bit_eq_0_iff)
  finally show ?thesis by simp
qed

lemma aligned_64_add: "aligned_64 a \<Longrightarrow> aligned_64 b \<Longrightarrow> aligned_64 (a + b)"
  by (simp add: aligned_64_dvd)

lemma aligned_64_align_size: "aligned_64 (align_size sz)"
  by (simp add: aligned_64_dvd align_size_alt)

subsection \<open>Evaluation on sample values\<close>

lemmas mem_eval = hal_mem_alloc_def hal_mem_free_def hal_mem_available_def alloc_blocks_def
  free_blocks_def align_size_def HAL_MEM_ALIGN_def sizeof_mem_block_def SIZE_MAX_def NULL_def
  fresh_allocator_def hal_mem_init_def HAL_ACCEL_MEM_SIZE_def Let_def ctx_blocks_def
  with_blocks_def

lemma round_up_64_dvd: "64 dvd round_up_64 n"
  by (simp add: round_up_64_def)

lemma sample_session_hal: "hal sample_session = fresh_allocator sample_hal sample_base HAL_ACCEL_MEM_SIZE"
  by (simp add: sample_session_eq fresh_allocator_def hal_mem_init_def sample_hal_def
      sample_base_def)

lemma sample_blocks:
  "ctx_blocks (fresh_allocator sample_hal sample_base HAL_ACCEL_MEM_SIZE)
     = [\<lparr>addr = sample_base, bsize = HAL_ACCEL_MEM_SIZE, used = False\<rparr>]"
  by (rule ctx_blocks_fresh)

lemma ptr_add_nonzero:
  fixes base k :: ptr
  assumes "base \<noteq> 0" "unat base + unat k < 2 ^ 64"
  shows "base + k \<noteq> 0"
proof -
  from assms(2) have "unat base + unat k < 2 ^ LENGTH(64)" by simp
  then have "unat (base + k) = unat base + unat k"
    by (simp only: unat_add_lem)
  moreover from assms(1) have "unat base \<noteq> 0"
    by (simp add: unat_eq_0)
  ultimately show ?thesis
    by (metis add_is_0 unat_eq_0)
qed

subsection \<open>The blocks tile the window\<close>

lemma laid_out_append:
  "laid_out base off (xs @ ys) \<longleftrightarrow> laid_out base off xs \<and> laid_out base (off + sizes_sum xs) ys"
  by (induction xs arbitrary: off) (auto simp: add.assoc)

lemma alloc_blocks_shape_split:
  assumes "alloc_blocks bs sz ok = (bs', p)"
  shows "(bs' = bs \<and> p = NULL)
       \<or> (\<exists>pre b post. bs = pre @ b # post \<and> fits sz b \<and> p = addr b
            \<and> (bs' = pre @ b\<lparr>used := True\<rparr> # post
               \<or> sz + sizeof_mem_block + HAL_MEM_ALIGN < bsize b
                 \<and> bs' = pre @ b\<lparr>bsize := sz, used := True\<rparr>
                        # \<lparr>addr = addr b + sz, bsize = bsize b - sz, used = False\<rparr> # post))"
proof (cases "find_best_fit sz bs 0 None SIZE_MAX")
  case None
  with assms show ?thesis by (simp add: alloc_blocks_def)
next
  case (Some k)
  from find_best_fit_Some[OF Some] have k: "k < length bs" "fits sz (bs ! k)"
    by (simp_all add: best_fit_at_def)
  then have bs: "bs = take k bs @ bs ! k # drop (Suc k) bs"
    by (simp add: id_take_nth_drop)
  have upd: "bs[k := x] = take k bs @ x # drop (Suc k) bs" for x
    using k by (simp add: upd_conv_take_nth_drop)
  from assms Some have
    "(bs' = bs \<and> p = NULL) \<or> (p = addr (bs ! k)
        \<and> (bs' = take k bs @ (bs ! k)\<lparr>used := True\<rparr> # drop (Suc k) bs
           \<or> sz + sizeof_mem_block + HAL_MEM_ALIGN < bsize (bs ! k)
             \<and> bs' = take k bs @ (bs ! k)\<lparr>bsize := sz, used := True\<rparr>
                        # \<lparr>addr = addr (bs ! k) + sz, bsize = bsize (bs ! k) - sz, used = False\<rparr>
                        # drop (Suc k) bs))"
    by (auto simp: alloc_blocks_def Let_def upd split: if_splits)
  with k bs show ?thesis by blast
qed

lemma laid_out_alloc_blocks:
  assumes "alloc_blocks bs sz ok = (bs', p)" "laid_out base off bs"
  shows "laid_out base off bs'"
  using alloc_blocks_shape[OF assms(1)] assms(2)
  by (auto simp: laid_out_append fits_def unat_sub word_le_nat_alt add.assoc)

lemma merge_next_gone:
  assumes "merge_next b post = (b', post')" "unat (bsize b) + sizes_sum post < 2 ^ 64"
  shows "\<exists>gone. post = gone @ post' \<and> unat (bsize b') = unat (bsize b) + sizes_sum gone"
proof -
  from merge_next_props[OF assms(1)] obtain gone where g: "post = gone @ post'" by blast
  with merge_next_sizes[OF assms] show ?thesis by auto
qed

lemma laid_out_free_blocks:
  assumes "laid_out base off bs" "sizes_sum bs < 2 ^ 64"
  shows "laid_out base off (free_blocks bs p)"
proof (cases "find_block p [] bs")
  case None
  with assms show ?thesis by (simp add: free_blocks_def)
next
  case (Some t)
  obtain pre b post where t: "t = (pre, b, post)" by (cases t)
  from Some t have bs: "bs = pre @ b # post" by (auto dest: find_block_Some)
  obtain b' post' where m: "merge_next (b\<lparr>used := False\<rparr>) post = (b', post')"
    by (cases "merge_next (b\<lparr>used := False\<rparr>) post")
  from assms bs have "unat (bsize (b\<lparr>used := False\<rparr>)) + sizes_sum post < 2 ^ 64" by simp
  from merge_next_gone[OF m this] obtain gone where
    g: "post = gone @ post'" "unat (bsize b') = unat (bsize b) + sizes_sum gone"
    by auto
  from merge_next_props[OF m] have ab: "addr b' = addr b" by simp
  from assms(1) bs g ab have lo: "laid_out base off pre"
    "addr b' = base + of_nat (off + sizes_sum pre)"
    "laid_out base (off + sizes_sum pre + unat (bsize b')) post'"
    by (auto simp: laid_out_append add.assoc)
  show ?thesis
  proof (cases "used b", cases "pre \<noteq> [] \<and> \<not> used (last pre)")
    assume "\<not> used b"
    with Some t assms(1) show ?thesis
      by (simp add: free_blocks_def)
  next
    assume "used b" and "\<not> (pre \<noteq> [] \<and> \<not> used (last pre))"
    with Some t m lo show ?thesis
      by (auto simp: free_blocks_def laid_out_append)
  next
    assume ub: "used b" and True: "pre \<noteq> [] \<and> \<not> used (last pre)"
    then have pre: "pre = butlast pre @ [last pre]" by simp
    have sp: "sizes_sum pre = sizes_sum (butlast pre) + unat (bsize (last pre))"
      by (subst pre) simp
    from lo(1) have lp: "laid_out base off (butlast pre)"
      "addr (last pre) = base + of_nat (off + sizes_sum (butlast pre))"
      by (subst (asm) pre, simp add: laid_out_append)+
    from sp assms(2) bs g
    have "unat (bsize (last pre)) + unat (bsize b') < 2 ^ LENGTH(64)" by simp
    then have u: "unat (bsize (last pre) + bsize b') = unat (bsize (last pre)) + unat (bsize b')"
      by (simp only: unat_add_lem)
    from lo(3) sp have "laid_out base
        (off + sizes_sum (butlast pre) + (unat (bsize (last pre)) + unat (bsize b'))) post'"
      by (simp add: add.assoc)
    with Some t m True ub lp u show ?thesis
      by (auto simp: free_blocks_def laid_out_append)
  qed
qed

lemma laid_out_apply_call:
  assumes "laid_out base 0 (ctx_blocks ctx)" "sizes_sum (ctx_blocks ctx) < 2 ^ 64"
  shows "laid_out base 0 (ctx_blocks (apply_call ctx x))"
proof (cases x)
  case (Alloc sz ok)
  obtain bs' p where "alloc_blocks (ctx_blocks ctx) (align_size sz) ok = (bs', p)"
    by (cases "alloc_blocks (ctx_blocks ctx) (align_size sz) ok")
  with Alloc assms laid_out_alloc_blocks[OF this assms(1)] show ?thesis
    by (simp add: ctx_blocks_alloc)
next
  case (Free p)
  with assms show ?thesis
    by (simp add: ctx_blocks_free laid_out_free_blocks)
qed

lemma laid_out_run_calls:
  "laid_out base 0 (ctx_blocks (run_calls (fresh_allocator c base sz) calls))"
proof (induction calls rule: rev_induct)
  case Nil
  show ?case by (simp add: run_calls_Nil ctx_blocks_fresh)
next
  case (snoc x calls)
  have "unat sz < 2 ^ 64"
    using unsigned_less[of sz, where 'a = nat] by simp
  with snoc show ?case
    by (simp add: run_calls_snoc laid_out_apply_call sizes_sum_run_calls)
qed

lemma laid_out_member:
  "laid_out base off bs \<Longrightarrow> b \<in> set bs \<Longrightarrow>
     \<exists>o'. addr b = base + of_nat o' \<and> off \<le> o' \<and> o' + unat (bsize b) \<le> off + sizes_sum bs"
proof (induction bs arbitrary: off)
  case Nil
  then show ?case by simp
next
  case (Cons a bs)
  show ?case
  proof (cases "b = a")
    case True
    with Cons.prems show ?thesis
      by (intro exI[of _ off]) simp
  next
    case False
    with Cons.prems have "laid_out base (off + unat (bsize a)) bs" "b \<in> set bs"
      by simp_all
    from Cons.IH[OF this] obtain o' where
      "addr b = base + of_nat o'" "off + unat (bsize a) \<le> o'"
      "o' + unat (bsize b) \<le> off + unat (bsize a) + sizes_sum bs"
      by blast
    then show ?thesis
      by (intro exI[of _ o']) simp
  qed
qed

lemma free_blocks_addrs: "addr ` set (free_blocks bs p) \<subseteq> addr ` set bs"
proof (cases "find_block p [] bs")
  case None
  then show ?thesis by (simp add: free_blocks_def)
next
  case (Some t)
  obtain pre b post where t: "t = (pre, b, post)" by (cases t)
  from Some t have bs: "bs = pre @ b # post" by (auto dest: find_block_Some)
  obtain b' post' where m: "merge_next (b\<lparr>used := False\<rparr>) post = (b', post')"
    by (cases "merge_next (b\<lparr>used := False\<rparr>) post")
  from merge_next_props[OF m] obtain gone where
    g: "addr b' = addr b" "post = gone @ post'"
    by auto
  show ?thesis
  proof (cases "pre \<noteq> [] \<and> \<not> used (last pre)")
    case False
    with Some t m g bs show ?thesis
      by (auto simp: free_blocks_def)
  next
    case True
    then have pre: "pre = butlast pre @ [last pre]" by simp
    have "addr ` set pre = addr ` set (butlast pre) \<union> {addr (last pre)}"
      by (subst pre) simp
    with Some t m g bs True show ?thesis
      by (auto simp: free_blocks_def)
  qed
qed

lemma aligned_alloc_blocks:
  assumes "alloc_blocks bs sz ok = (bs', p)" "aligned_64 sz" "\<forall>b\<in>set bs. aligned_64 (addr b)"
  shows "\<forall>b\<in>set bs'. aligned_64 (addr b)"
  using alloc_blocks_shape[OF assms(1)] assms(2,3)
  by (auto simp: aligned_64_add)

lemma aligned_apply_call:
  assumes "\<forall>b\<in>set (ctx_blocks ctx). aligned_64 (addr b)"
  shows "\<forall>b\<in>set (ctx_blocks (apply_call ctx x)). aligned_64 (addr b)"
proof (cases x)
  case (Alloc sz ok)
  obtain bs' p where "alloc_blocks (ctx_blocks ctx) (align_size sz) ok = (bs', p)"
    by (cases "alloc_blocks (ctx_blocks ctx) (align_size sz) ok")
  with Alloc assms aligned_alloc_blocks[OF this aligned_64_align_size assms] show ?thesis
    by (simp add: ctx_blocks_alloc)
next
  case (Free p)
  with assms free_blocks_addrs[of "ctx_blocks ctx" p] show ?thesis
    by (auto simp: ctx_blocks_free)
qed

lemma aligned_run_calls:
  "aligned_64 base \<Longrightarrow>
     \<forall>b\<in>set (ctx_blocks (run_calls (fresh_allocator c base sz) calls)). aligned_64 (addr b)"
proof (induction calls rule: rev_induct)
  case Nil
  then show ?case by (simp add: run_calls_Nil ctx_blocks_fresh)
next
  case (snoc x calls)
  show ?case
    unfolding run_calls_snoc by (rule aligned_apply_call) (rule snoc.IH[OF snoc.prems])
qed

lemma unat_base_plus:
  fixes base :: ptr
  assumes "unat base + n \<le> 2 ^ 64" "base + of_nat n \<noteq> 0"
  shows "unat (base + of_nat n) = unat base + n"
proof -
  have "unat base + n \<noteq> 2 ^ 64"
  proof
    assume e: "unat base + n = 2 ^ 64"
    have "base + of_nat n = of_nat (unat base + n)"
      by simp
    also have "\<dots> = (0::64 word)"
      unfolding e by simp
    finally show False using assms(2) by simp
  qed
  with assms(1) have lt: "unat base + n < 2 ^ 64" by simp
  then have "n < 2 ^ 64" by simp
  then have n: "unat (of_nat n :: 64 word) = n"
    by (simp add: unat_of_nat)
  with lt have "unat base + unat (of_nat n :: 64 word) < 2 ^ LENGTH(64)" by simp
  then have "unat (base + of_nat n) = unat base + unat (of_nat n :: 64 word)"
    by (simp only: unat_add_lem)
  with n show ?thesis by simp
qed

text \<open>
  Over a window that starts at a 64-byte-aligned address and does not wrap around the
  address space, and after any sequence of calls, a request of at most \<open>SIZE_MAX - 63\<close>
  bytes that is answered with a non-null pointer gets an aligned pointer whose span of the
  rounded size lies within the window.
\<close>

lemma alloc_within_window:
  fixes c :: hal_context and base :: ptr and S sz :: size_t and calls :: "mem_call list"
  assumes al: "aligned_64 base" and win: "unat base + unat S \<le> 2 ^ 64"
    and small: "unat sz \<le> 2 ^ 64 - 64"
    and res: "hal_mem_alloc (run_calls (fresh_allocator c base S) calls) sz ok = (st', p)"
    and nn: "p \<noteq> NULL"
  shows "aligned_64 p \<and> unat base \<le> unat p
       \<and> unat p + round_up_64 (unat sz) \<le> unat base + unat S"
proof -
  let ?st = "run_calls (fresh_allocator c base S) calls"
  let ?bs = "ctx_blocks ?st"
  have ready: "mem_ready ?st" by (rule mem_ready_run_calls)
  from res nn have sz0: "sz \<noteq> 0"
    by (auto simp: hal_mem_alloc_def split: option.splits)
  obtain bs' q where ab: "alloc_blocks ?bs (align_size sz) ok = (bs', q)"
    by (cases "alloc_blocks ?bs (align_size sz) ok")
  with res hal_mem_alloc_with_blocks[OF ready sz0, of ok] have "q = p" by simp
  with alloc_blocks_shape_split[OF ab] nn
  have "\<exists>b\<in>set ?bs. fits (align_size sz) b \<and> p = addr b"
    by fastforce
  then obtain b where b: "b \<in> set ?bs" "fits (align_size sz) b" "p = addr b"
    by blast
  from laid_out_member[OF laid_out_run_calls b(1)] obtain o' where
    o: "addr b = base + of_nat o'" "o' + unat (bsize b) \<le> sizes_sum ?bs"
    by auto
  from o(2) have le: "o' + unat (bsize b) \<le> unat S"
    by (simp add: sizes_sum_run_calls)
  with win have "unat base + o' \<le> 2 ^ 64" by simp
  moreover from nn b(3) o(1) have "base + of_nat o' \<noteq> 0" by (simp add: NULL_def)
  ultimately have up: "unat p = unat base + o'"
    using b(3) o(1) by (simp add: unat_base_plus)
  from b(2) have "unat (align_size sz) \<le> unat (bsize b)"
    by (simp add: fits_def word_le_nat_alt)
  with le up have "unat p + unat (align_size sz) \<le> unat base + unat S" by simp
  moreover from aligned_run_calls[OF al] b(1,3) have "aligned_64 p" by simp
  ultimately show ?thesis
    using up by (simp add: unat_align_size[OF small])
qed

subsection \<open>What the caller holds\<close>

lemma of_nat_64_inj:
  assumes "x < 2 ^ 64" "y < 2 ^ 64" "(of_nat x :: 64 word) = of_nat y"
  shows "x = y"
proof -
  have "unat (of_nat x :: 64 word) = x"
    by (rule of_nat_inverse[OF refl]) (use assms(1) in simp)
  moreover have "unat (of_nat y :: 64 word) = y"
    by (rule of_nat_inverse[OF refl]) (use assms(2) in simp)
  ultimately show ?thesis
    using assms(3) by metis
qed

lemma distinct_addrs:
  "laid_out base off bs \<Longrightarrow> \<forall>b\<in>set bs. bsize b \<noteq> 0 \<Longrightarrow> off + sizes_sum bs \<le> 2 ^ 64 \<Longrightarrow>
     distinct (map addr bs)"
proof (induction bs arbitrary: off)
  case Nil
  then show ?case by simp
next
  case (Cons a bs)
  from Cons.prems have tl: "laid_out base (off + unat (bsize a)) bs"
    and a: "addr a = base + of_nat off" and nz: "unat (bsize a) \<noteq> 0"
    by (simp_all add: unat_eq_0)
  have "addr a \<noteq> addr b" if "b \<in> set bs" for b
  proof
    assume e: "addr a = addr b"
    from laid_out_member[OF tl that] obtain o' where
      o: "addr b = base + of_nat o'" "off + unat (bsize a) \<le> o'"
      "o' + unat (bsize b) \<le> off + unat (bsize a) + sizes_sum bs"
      by blast
    from that Cons.prems(2) have "unat (bsize b) \<noteq> 0"
      by (simp add: unat_eq_0)
    with o Cons.prems(3) nz have "off < 2 ^ 64" "o' < 2 ^ 64" "off \<noteq> o'"
      by simp_all
    moreover from e a o(1) have "(of_nat off :: 64 word) = of_nat o'" by simp
    ultimately show False
      using of_nat_64_inj by blast
  qed
  moreover from Cons.prems tl have "distinct (map addr bs)"
    by (intro Cons.IH[OF tl]) (simp_all add: add.assoc)
  ultimately show ?case by auto
qed

lemma addrs_nonzero:
  fixes base :: ptr
  assumes "laid_out base 0 bs" "\<forall>b\<in>set bs. bsize b \<noteq> 0" "base \<noteq> 0"
    "unat base + sizes_sum bs \<le> 2 ^ 64" "b \<in> set bs"
  shows "addr b \<noteq> 0"
proof -
  from laid_out_member[OF assms(1,5)] obtain o' where
    o: "addr b = base + of_nat o'" "o' + unat (bsize b) \<le> sizes_sum bs"
    by auto
  from assms(2,5) have "unat (bsize b) \<noteq> 0"
    by (simp add: unat_eq_0)
  with o(2) assms(4) have lt: "unat base + o' < 2 ^ 64" by simp
  then have "o' < 2 ^ 64" by simp
  then have "unat (of_nat o' :: 64 word) = o'"
    by (intro of_nat_inverse[OF refl]) simp
  with lt have "unat base + unat (of_nat o' :: 64 word) < 2 ^ 64" by simp
  with assms(3) have "base + of_nat o' \<noteq> 0"
    by (rule ptr_add_nonzero)
  with o(1) show ?thesis by simp
qed

lemma free_blocks_used_shape:
  assumes f: "find_block p [] bs = Some (pre, b, post)" and u: "used b"
    and s: "sizes_sum bs < 2 ^ 64"
  shows "\<exists>front q gone post'.
           bs = pre @ b # gone @ post' \<and> (\<forall>x\<in>set gone. \<not> used x)
         \<and> free_blocks bs p = front @ q # post' \<and> \<not> used q
         \<and> unat (bsize b) \<le> unat (bsize q)
         \<and> (front = pre \<or> (\<exists>l. pre = front @ [l] \<and> \<not> used l))"
proof -
  from f have bs: "bs = pre @ b # post" by (auto dest: find_block_Some)
  obtain b' post' where m: "merge_next (b\<lparr>used := False\<rparr>) post = (b', post')"
    by (cases "merge_next (b\<lparr>used := False\<rparr>) post")
  from merge_next_props[OF m] obtain gone where
    g: "\<not> used b'" "post = gone @ post'" "\<forall>x\<in>set gone. \<not> used x"
    by auto
  from s bs have "unat (bsize (b\<lparr>used := False\<rparr>)) + sizes_sum post < 2 ^ 64" by simp
  from merge_next_gone[OF m this] g(2)
  have sz: "unat (bsize b') = unat (bsize b) + sizes_sum (take (length post - length post') post)"
    by auto
  show ?thesis
  proof (cases "pre \<noteq> [] \<and> \<not> used (last pre)")
    case False
    with f u m have "free_blocks bs p = pre @ b' # post'"
      by (auto simp: free_blocks_def)
    with bs g sz have "bs = pre @ b # gone @ post' \<and> (\<forall>x\<in>set gone. \<not> used x)
         \<and> free_blocks bs p = pre @ b' # post' \<and> \<not> used b'
         \<and> unat (bsize b) \<le> unat (bsize b')
         \<and> (pre = pre \<or> (\<exists>l. pre = pre @ [l] \<and> \<not> used l))"
      by simp
    then show ?thesis by blast
  next
    case True
    then have pre: "pre = butlast pre @ [last pre]" by simp
    let ?q = "(last pre)\<lparr>bsize := bsize (last pre) + bsize b'\<rparr>"
    have sp: "sizes_sum pre = sizes_sum (butlast pre) + unat (bsize (last pre))"
      by (subst pre) simp
    from s bs g(2) sz sp have "unat (bsize (last pre)) + unat (bsize b') < 2 ^ LENGTH(64)"
      by simp
    then have "unat (bsize (last pre) + bsize b') = unat (bsize (last pre)) + unat (bsize b')"
      by (simp only: unat_add_lem)
    with sz have "unat (bsize b) \<le> unat (bsize ?q)" by simp
    moreover from f u m True have "free_blocks bs p = butlast pre @ ?q # post'"
      by (auto simp: free_blocks_def)
    moreover from True pre have "\<exists>l. pre = butlast pre @ [l] \<and> \<not> used l"
      by blast
    ultimately have "bs = pre @ b # gone @ post' \<and> (\<forall>x\<in>set gone. \<not> used x)
         \<and> free_blocks bs p = butlast pre @ ?q # post' \<and> \<not> used ?q
         \<and> unat (bsize b) \<le> unat (bsize ?q)
         \<and> (butlast pre = pre \<or> (\<exists>l. pre = butlast pre @ [l] \<and> \<not> used l))"
      using bs g True by simp
    then show ?thesis by blast
  qed
qed

lemma alloc_step_inv:
  fixes base :: ptr and S rsz :: size_t
  assumes lo: "laid_out base 0 bs" and sum: "sizes_sum bs = unat S"
    and nz: "\<forall>b\<in>set bs. bsize b \<noteq> 0" and hm: "held_matches held bs"
    and win: "base \<noteq> 0" "unat base + unat S \<le> 2 ^ 64" "unat S < 2 ^ 64 - 64"
    and rs: "rsz \<noteq> 0" "64 dvd unat rsz"
    and ab: "alloc_blocks bs rsz ok = (bs', p)"
  shows "(\<forall>b\<in>set bs'. bsize b \<noteq> 0) \<and> held_matches (if p = NULL then held else p # held) bs'"
proof -
  from alloc_blocks_shape_split[OF ab] consider
    (same) "bs' = bs" "p = NULL"
    | (got) pre b post where "bs = pre @ b # post" "fits rsz b" "p = addr b"
      "bs' = pre @ b\<lparr>used := True\<rparr> # post
       \<or> rsz + sizeof_mem_block + HAL_MEM_ALIGN < bsize b
         \<and> bs' = pre @ b\<lparr>bsize := rsz, used := True\<rparr>
                # \<lparr>addr = addr b + rsz, bsize = bsize b - rsz, used = False\<rparr> # post"
    by blast
  then show ?thesis
  proof cases
    case same
    with nz hm show ?thesis by simp
  next
    case (got pre b post)
    note bs = got(1) and fit = got(2) and p = got(3) and shape = got(4)
    from bs have bin: "b \<in> set bs" by simp
    from sum win(2) have le: "unat base + sizes_sum bs \<le> 2 ^ 64" by simp
    from addrs_nonzero[OF lo nz win(1) le bin] p have pn: "p \<noteq> NULL"
      by (simp add: NULL_def)
    from sum have "0 + sizes_sum bs \<le> 2 ^ 64"
      using unsigned_less[of S, where 'a = nat] by simp
    from distinct_addrs[OF lo nz this] have d: "distinct (map addr bs)" .
    from d bs have dp: "addr b \<notin> addr ` set pre" "addr b \<notin> addr ` set post"
      by auto
    from fit have fb: "\<not> used b" by (simp add: fits_def)
    from hm bs fb have held: "distinct held"
      "set held = set (map addr (filter used pre)) \<union> set (map addr (filter used post))"
      by (auto simp: held_matches_def)
    with dp p have pnh: "p \<notin> set held" by auto
    from shape show ?thesis
    proof (elim disjE conjE)
      assume "bs' = pre @ b\<lparr>used := True\<rparr> # post"
      with nz bs held pnh pn p show ?thesis
        by (auto simp: held_matches_def)
    next
      assume t: "rsz + sizeof_mem_block + HAL_MEM_ALIGN < bsize b"
        and b': "bs' = pre @ b\<lparr>bsize := rsz, used := True\<rparr>
                  # \<lparr>addr = addr b + rsz, bsize = bsize b - rsz, used = False\<rparr> # post"
      from fit have "rsz \<le> bsize b" by (simp add: fits_def)
      moreover from sizes_sum_member[OF bin] sum win(3) have "unat (bsize b) < 2 ^ 64 - 64"
        by simp
      ultimately have "unat rsz + unat sizeof_mem_block + unat HAL_MEM_ALIGN < unat (bsize b)"
        using t rs(2) by (simp add: split_test_nat)
      then have "bsize b \<noteq> rsz" by auto
      with b' nz bs held pnh pn p rs(1) show ?thesis
        by (auto simp: held_matches_def)
    qed
  qed
qed

lemma free_step_inv:
  fixes base :: ptr and S :: size_t
  assumes lo: "laid_out base 0 bs" and sum: "sizes_sum bs = unat S"
    and nz: "\<forall>b\<in>set bs. bsize b \<noteq> 0" and hm: "held_matches held bs"
  shows "(\<forall>b\<in>set (free_blocks bs p). bsize b \<noteq> 0)
       \<and> held_matches (remove1 p held) (free_blocks bs p)"
proof -
  have lt: "sizes_sum bs < 2 ^ 64"
    using sum unsigned_less[of S, where 'a = nat] by simp
  then have "0 + sizes_sum bs \<le> 2 ^ 64" by simp
  from distinct_addrs[OF lo nz this] have d: "distinct (map addr bs)" .
  show ?thesis
  proof (cases "find_block p [] bs")
    case None
    from find_block_None[OF None] hm have "p \<notin> set held"
      by (auto simp: held_matches_def)
    with None nz hm show ?thesis
      by (simp add: free_blocks_def remove1_idem)
  next
    case (Some t)
    obtain pre b post where t: "t = (pre, b, post)" by (cases t)
    with Some have f: "find_block p [] bs = Some (pre, b, post)" by simp
    from find_block_Some[OF f] have bs: "bs = pre @ b # post" and p: "addr b = p"
      by simp_all
    from d bs have dp: "addr b \<notin> addr ` set pre" "addr b \<notin> addr ` set post"
      by auto
    show ?thesis
    proof (cases "used b")
      case False
      with hm bs dp p have "p \<notin> set held"
        by (auto simp: held_matches_def)
      with f False nz hm show ?thesis
        by (simp add: free_blocks_def remove1_idem)
    next
      case True
      from free_blocks_used_shape[OF f True lt] obtain front q gone post' where
        s: "bs = pre @ b # gone @ post'" "\<forall>x\<in>set gone. \<not> used x"
        "free_blocks bs p = front @ q # post'" "\<not> used q"
        "unat (bsize b) \<le> unat (bsize q)"
        "front = pre \<or> (\<exists>l. pre = front @ [l] \<and> \<not> used l)"
        by blast
      from nz bs have "unat (bsize b) \<noteq> 0" by (simp add: unat_eq_0)
      with s(5) have qn: "bsize q \<noteq> 0" by auto
      from s(6) have fs: "set front \<subseteq> set pre" and fu: "filter used front = filter used pre"
        by auto
      from s(2) have gu: "filter used gone = []" by simp
      from nz s(1) fs qn have 1: "\<forall>x\<in>set (free_blocks bs p). bsize x \<noteq> 0"
        unfolding s(3) by auto
      from bs s(1) have post: "post = gone @ post'" by simp
      from hm True have dh: "distinct held"
        and sh: "set held = insert p (set (map addr (filter used pre))
                     \<union> set (map addr (filter used post')))"
        unfolding held_matches_def s(1) by (simp_all add: gu p)
      from dp post p have "p \<notin> set (map addr (filter used pre))"
        "p \<notin> set (map addr (filter used post'))"
        by auto
      with sh have "set held - {p}
          = set (map addr (filter used pre)) \<union> set (map addr (filter used post'))"
        by auto
      with dh s(4) have 2: "held_matches (remove1 p held) (free_blocks bs p)"
        unfolding held_matches_def s(3) by (simp add: fu)
      from 1 2 show ?thesis by simp
    qed
  qed
qed

lemma caller_run_snoc: "caller_run ctx (calls @ [x]) = caller_step (caller_run ctx calls) x"
  by (simp add: caller_run_def)

lemma caller_step_fst: "fst (caller_step (ctx, held) x) = apply_call ctx x"
  by (cases x) (simp_all split: prod.splits)

lemma caller_run_fst: "fst (caller_run ctx calls) = run_calls ctx calls"
proof (induction calls rule: rev_induct)
  case Nil
  show ?case by (simp add: caller_run_def run_calls_def)
next
  case (snoc x calls)
  then show ?case
    by (cases "caller_run ctx calls") (simp add: caller_run_snoc run_calls_snoc caller_step_fst)
qed

lemma hal_mem_alloc_zero: "hal_mem_alloc ctx 0 ok = (ctx, NULL)"
  by (simp add: hal_mem_alloc_def split: option.splits)

lemma align_size_nonzero:
  assumes "sz \<noteq> 0" "unat sz \<le> 2 ^ 64 - 64"
  shows "align_size sz \<noteq> 0"
proof -
  from assms(1) have "unat sz \<noteq> 0" by (simp add: unat_eq_0)
  then have "1 \<le> unat sz" by simp
  then have "64 \<le> round_up_64 (unat sz)"
    by (simp add: round_up_64_def)
  with unat_align_size[OF assms(2)] show ?thesis by auto
qed

lemma ctx_blocks_with_blocks: "mem_ready ctx \<Longrightarrow> ctx_blocks (with_blocks ctx bs) = bs"
  by (cases ctx) (auto simp: mem_ready_def with_blocks_def ctx_blocks_def)

text \<open>
  As long as no request exceeds \<open>SIZE_MAX - 63\<close> bytes, no block is empty and the caller
  holds exactly the addresses of the blocks in use (window: non-null base, no wrap-around,
  at most \<open>SIZE_MAX - 64\<close> bytes).
\<close>

lemma caller_inv:
  fixes c :: hal_context and base :: ptr and S :: size_t
  assumes win: "base \<noteq> NULL" "unat base + unat S \<le> 2 ^ 64" "unat S < 2 ^ 64 - 64"
    and S0: "S \<noteq> 0" and small: "\<forall>x\<in>set calls. small_request x"
  shows "(\<forall>b\<in>set (ctx_blocks (run_calls (fresh_allocator c base S) calls)). bsize b \<noteq> 0)
       \<and> held_matches (snd (caller_run (fresh_allocator c base S) calls))
            (ctx_blocks (run_calls (fresh_allocator c base S) calls))"
  using small
proof (induction calls rule: rev_induct)
  case Nil
  from S0 show ?case
    by (simp add: run_calls_Nil caller_run_def ctx_blocks_fresh held_matches_def)
next
  case (snoc x calls)
  let ?st = "run_calls (fresh_allocator c base S) calls"
  obtain held where cr: "caller_run (fresh_allocator c base S) calls = (?st, held)"
    by (metis caller_run_fst prod.collapse)
  from snoc cr have nz: "\<forall>b\<in>set (ctx_blocks ?st). bsize b \<noteq> 0"
    and hm: "held_matches held (ctx_blocks ?st)"
    by simp_all
  note lo = laid_out_run_calls[of base c S calls]
  note sum = sizes_sum_run_calls[of c base S calls]
  have b0: "base \<noteq> 0" using win(1) by (simp add: NULL_def)
  show ?case
  proof (cases x)
    case (Free p)
    show ?thesis
    proof (cases "p = NULL")
      case True
      with Free nz hm have "remove1 p held = held"
      proof -
        have "NULL \<notin> set held"
        proof
          assume "NULL \<in> set held"
          with hm obtain b where "b \<in> set (ctx_blocks ?st)" "addr b = 0"
            by (auto simp: held_matches_def NULL_def)
          moreover from sum win(2) have "unat base + sizes_sum (ctx_blocks ?st) \<le> 2 ^ 64"
            by simp
          ultimately show False
            using addrs_nonzero[OF lo nz b0] by blast
        qed
        then have "remove1 NULL held = held" by (rule remove1_idem)
        with True show ?thesis by (simp only:)
      qed
      with True Free nz hm show ?thesis
        by (simp add: run_calls_snoc caller_run_snoc cr hal_mem_free_with_blocks)
    next
      case False
      with Free free_step_inv[OF lo sum nz hm, of p] show ?thesis
        by (simp add: run_calls_snoc caller_run_snoc cr ctx_blocks_free)
    qed
  next
    case (Alloc sz ok)
    show ?thesis
    proof (cases "sz = 0")
      case True
      with Alloc nz hm show ?thesis
        by (simp add: run_calls_snoc caller_run_snoc cr hal_mem_alloc_zero)
    next
      case False
      from snoc.prems Alloc have sm: "unat sz \<le> 2 ^ 64 - 64" by simp
      obtain bs' p where ab: "alloc_blocks (ctx_blocks ?st) (align_size sz) ok = (bs', p)"
        by (cases "alloc_blocks (ctx_blocks ?st) (align_size sz) ok")
      have "64 dvd unat (align_size sz)"
        by (simp add: unat_align_size[OF sm] round_up_64_dvd)
      from alloc_step_inv[OF lo sum nz hm b0 win(2,3) align_size_nonzero[OF False sm] this ab]
      have "(\<forall>b\<in>set bs'. bsize b \<noteq> 0)
          \<and> held_matches (if p = NULL then held else p # held) bs'" .
      with Alloc False ab
        hal_mem_alloc_with_blocks[OF mem_ready_run_calls[of c base S calls] False, of ok]
      show ?thesis
        by (simp add: run_calls_snoc caller_run_snoc cr
            ctx_blocks_with_blocks[OF mem_ready_run_calls])
    qed
  qed
qed

lemma hal_mem_available_blocks: "hal_mem_available ctx = available_loop (ctx_blocks ctx) 0"
  by (simp add: hal_mem_available_def ctx_blocks_def split: option.splits)

lemma available_loop_all_free:
  "\<forall>b\<in>set bs. \<not> used b \<Longrightarrow> available_loop bs acc = acc + of_nat (sizes_sum bs)"
  by (induction bs arbitrary: acc) (simp_all add: add.assoc)

lemma available_loop_empty_blocks:
  "\<forall>b\<in>set bs. bsize b = 0 \<Longrightarrow> available_loop bs acc = acc"
  by (induction bs arbitrary: acc) simp_all

text \<open>When no block is in use, \<open>hal_mem_available\<close> returns the window size.\<close>

lemma available_when_all_free:
  assumes "\<forall>b\<in>set (ctx_blocks (run_calls (fresh_allocator c base S) calls)). \<not> used b"
  shows "hal_mem_available (run_calls (fresh_allocator c base S) calls) = S"
  using assms
  by (simp add: hal_mem_available_blocks available_loop_all_free sizes_sum_run_calls)

text \<open>
  Hence, when no request exceeds \<open>SIZE_MAX - 63\<close> bytes: once the caller has freed every
  pointer it was given, in any order and interleaved with any other calls,
  \<open>hal_mem_available\<close> returns the window size.
\<close>

lemma available_restored:
  fixes c :: hal_context and base :: ptr and S :: size_t
  assumes win: "base \<noteq> NULL" "unat base + unat S \<le> 2 ^ 64" "unat S < 2 ^ 64 - 64"
    and small: "\<forall>x\<in>set calls. small_request x"
    and fin: "snd (caller_run (fresh_allocator c base S) calls) = []"
  shows "hal_mem_available (fst (caller_run (fresh_allocator c base S) calls)) = S"
proof (cases "S = 0")
  case True
  let ?bs = "ctx_blocks (run_calls (fresh_allocator c base S) calls)"
  have "sizes_sum ?bs = 0"
    by (simp add: sizes_sum_run_calls True)
  then have "\<forall>b\<in>set ?bs. bsize b = 0"
    using sizes_sum_member[of _ ?bs] by (auto simp: unat_eq_0)
  with True show ?thesis
    by (simp add: caller_run_fst hal_mem_available_blocks available_loop_empty_blocks)
next
  case False
  from caller_inv[OF win False small, of c] fin
  have "filter used (ctx_blocks (run_calls (fresh_allocator c base S) calls)) = []"
    by (simp add: held_matches_def)
  then have "\<forall>b\<in>set (ctx_blocks (run_calls (fresh_allocator c base S) calls)). \<not> used b"
    by (simp add: filter_empty_conv)
  then show ?thesis
    by (simp add: caller_run_fst available_when_all_free)
qed

section \<open>The allocator's properties\<close>

text \<open>
  C2. After every sequence of \<open>hal_mem_alloc\<close> and \<open>hal_mem_free\<close> calls on a freshly
  initialized allocator no two adjacent blocks of the list are both free. On every such
  state \<open>hal_mem_free\<close> does what its description says: it locates the first block at the
  address and, if that block is in use, marks it unused, absorbs the block right after it
  when that one is free, and then lets the block right before it absorb the result when that
  one is free; a null pointer changes nothing.
\<close>

theorem free_keeps_no_adjacent_free:
  "no_adjacent_free (ctx_blocks (run_calls (fresh_allocator c base sz) calls))
   \<and> hal_mem_free (run_calls (fresh_allocator c base sz) calls) p
       = (if p = NULL then run_calls (fresh_allocator c base sz) calls
          else with_blocks (run_calls (fresh_allocator c base sz) calls)
                 (free_as_described
                    (ctx_blocks (run_calls (fresh_allocator c base sz) calls)) p))"
  using no_adjacent_free_run_calls[of c base sz calls]
  by (simp add: hal_mem_free_with_blocks free_blocks_as_described)

text \<open>
  C3, the request as stated fails when the header of the remainder cannot be allocated:
  on the fresh sample allocator the only block is free and large enough for 64 bytes, a
  split is due, \<open>malloc\<close> fails, and \<open>hal_mem_alloc\<close> returns \<open>NULL\<close> with the block
  still unused.
\<close>

theorem alloc_fails_when_malloc_fails:
  "fits (align_size 64) (hd (ctx_blocks (hal sample_session)))
   \<and> hal_mem_alloc (hal sample_session) 64 False = (hal sample_session, NULL)"
  by (simp add: sample_session_eq mem_eval fits_def)

text \<open>
  C3, amended. On every state reached from a fresh allocator over a window of at most
  \<open>SIZE_MAX - 64\<close> bytes, and for every request \<open>sz\<close> with \<open>0 < sz \<le> SIZE_MAX - 63\<close>:
  \<open>align_size sz\<close> is \<open>sz\<close> rounded up to the next multiple of 64; when no free block
  holds that many bytes the call returns \<open>NULL\<close> and changes nothing; otherwise the block
  chosen is the best fit (the first of the smallest fitting free blocks) and, when its size
  exceeds the rounded request by more than \<open>sizeof(struct mem_block) + HAL_MEM_ALIGN\<close>,
  the call either splits it into a used block of exactly the rounded size and a free
  remainder placed right after it and returns its address, or, when the header for the
  remainder cannot be allocated, returns \<open>NULL\<close> and changes nothing; when the size does
  not exceed the request by that much the block is marked used whole and its address
  returned.
\<close>

theorem best_fit_alloc:
  fixes c :: hal_context and base :: ptr and S sz :: size_t and calls :: "mem_call list"
  defines "st \<equiv> run_calls (fresh_allocator c base S) calls"
  defines "bs \<equiv> ctx_blocks (run_calls (fresh_allocator c base S) calls)"
  assumes "unat S < 2 ^ 64 - 64" and "sz \<noteq> 0" and "unat sz \<le> 2 ^ 64 - 64"
  shows "unat (align_size sz) = round_up_64 (unat sz)
    \<and> ((\<forall>b\<in>set bs. \<not> fits (align_size sz) b) \<longrightarrow> hal_mem_alloc st sz ok = (st, NULL))
    \<and> (\<forall>k. best_fit_at (align_size sz) bs k \<longrightarrow>
          hal_mem_alloc st sz ok =
            (if unat (align_size sz) + unat sizeof_mem_block + unat HAL_MEM_ALIGN
                  < unat (bsize (bs ! k))
             then (if ok
                   then (with_blocks st
                           (take k bs
                            @ [(bs ! k)\<lparr>bsize := align_size sz, used := True\<rparr>,
                               \<lparr>addr = addr (bs ! k) + align_size sz,
                                bsize = bsize (bs ! k) - align_size sz, used = False\<rparr>]
                            @ drop (Suc k) bs),
                         addr (bs ! k))
                   else (st, NULL))
             else (with_blocks st (bs[k := (bs ! k)\<lparr>used := True\<rparr>]), addr (bs ! k))))"
proof (intro conjI allI impI)
  have ready: "mem_ready st"
    unfolding st_def by (rule mem_ready_run_calls)
  have sum: "sizes_sum bs = unat S"
    unfolding bs_def by (rule sizes_sum_run_calls)
  have bs: "bs = ctx_blocks st"
    by (simp add: bs_def st_def)
  note alloc = hal_mem_alloc_with_blocks[OF ready \<open>sz \<noteq> 0\<close>, of ok, folded bs]
  show r: "unat (align_size sz) = round_up_64 (unat sz)"
    using assms(5) by (rule unat_align_size)
  show "hal_mem_alloc st sz ok = (st, NULL)" if "\<forall>b\<in>set bs. \<not> fits (align_size sz) b"
    using that by (simp add: alloc alloc_blocks_no_fit bs with_blocks_same)
  show "hal_mem_alloc st sz ok =
            (if unat (align_size sz) + unat sizeof_mem_block + unat HAL_MEM_ALIGN
                  < unat (bsize (bs ! k))
             then (if ok
                   then (with_blocks st
                           (take k bs
                            @ [(bs ! k)\<lparr>bsize := align_size sz, used := True\<rparr>,
                               \<lparr>addr = addr (bs ! k) + align_size sz,
                                bsize = bsize (bs ! k) - align_size sz, used = False\<rparr>]
                            @ drop (Suc k) bs),
                         addr (bs ! k))
                   else (st, NULL))
             else (with_blocks st (bs[k := (bs ! k)\<lparr>used := True\<rparr>]), addr (bs ! k)))"
    if best: "best_fit_at (align_size sz) bs k" for k
  proof -
    from best have k: "k < length bs" and fit: "align_size sz \<le> bsize (bs ! k)"
      by (simp_all add: best_fit_at_def fits_def)
    from k have "unat (bsize (bs ! k)) \<le> sizes_sum bs"
      by (intro sizes_sum_member) simp
    with sum assms(3) have small: "unat (bsize (bs ! k)) < 2 ^ 64 - 64"
      by simp
    then have "unat (bsize (bs ! k)) < unat SIZE_MAX"
      by (simp add: SIZE_MAX_def unsigned_minus_1_eq_mask mask_eq_exp_minus_1)
    then have lt: "bsize (bs ! k) < SIZE_MAX"
      by (simp add: word_less_nat_alt)
    have "64 dvd unat (align_size sz)"
      by (simp add: r round_up_64_dvd)
    note test = split_test_nat[OF fit small this]
    show ?thesis
      by (simp add: alloc alloc_blocks_best_fit[OF best lt] test with_blocks_same[of st, folded bs])
  qed
qed

theorem best_fit_alloc_witness:
  "unat HAL_ACCEL_MEM_SIZE < 2 ^ 64 - 64 \<and> (100::size_t) \<noteq> 0 \<and> unat (100::size_t) \<le> 2 ^ 64 - 64
   \<and> unat (align_size 100) = 128
   \<and> hal_mem_alloc (fresh_allocator sample_hal sample_base HAL_ACCEL_MEM_SIZE) 100 True
       = (with_blocks (fresh_allocator sample_hal sample_base HAL_ACCEL_MEM_SIZE)
            [\<lparr>addr = sample_base, bsize = 128, used = True\<rparr>,
             \<lparr>addr = sample_base + 128, bsize = HAL_ACCEL_MEM_SIZE - 128, used = False\<rparr>],
          sample_base)"
proof -
  let ?st = "fresh_allocator sample_hal sample_base HAL_ACCEL_MEM_SIZE"
  have a: "unat HAL_ACCEL_MEM_SIZE < 2 ^ 64 - 64"
    by (simp add: HAL_ACCEL_MEM_SIZE_def)
  have b: "(100::size_t) \<noteq> 0" and c: "unat (100::size_t) \<le> 2 ^ 64 - 64"
    by simp_all
  have al: "align_size 100 = 128"
    by (simp add: align_size_def HAL_MEM_ALIGN_def)
  have best: "best_fit_at (align_size 100) (ctx_blocks (run_calls ?st [])) 0"
    unfolding run_calls_Nil sample_blocks
    by (simp add: best_fit_at_def fits_def al HAL_ACCEL_MEM_SIZE_def)
  from best_fit_alloc[OF a b c, of sample_hal sample_base "[]" True, THEN conjunct2,
      THEN conjunct2, rule_format, OF best]
  have "hal_mem_alloc ?st 100 True
       = (with_blocks ?st
            [\<lparr>addr = sample_base, bsize = 128, used = True\<rparr>,
             \<lparr>addr = sample_base + 128, bsize = HAL_ACCEL_MEM_SIZE - 128, used = False\<rparr>],
          sample_base)"
    unfolding run_calls_Nil sample_blocks
    by (simp add: al sizeof_mem_block_def HAL_MEM_ALIGN_def HAL_ACCEL_MEM_SIZE_def)
  with a b c al show ?thesis by simp
qed

text \<open>
  C9, the scenario as stated: on the sample allocator the two freed blocks (index 1 and 3)
  are not neighbours, so after the two calls of \<open>hal_mem_free\<close> they are still two
  separate free blocks of 256 bytes; the allocation of 512 bytes is served at offset 1280,
  from the free block behind the five, and leaves both freed blocks as they were.
\<close>

theorem fragmentation_uses_tail:
  "fragmentation_setup (hal sample_session)
     = ([sample_base, sample_base + 256, sample_base + 512, sample_base + 768,
         sample_base + 1024],
        with_blocks (hal sample_session)
          [\<lparr>addr = sample_base, bsize = 256, used = True\<rparr>,
           \<lparr>addr = sample_base + 256, bsize = 256, used = False\<rparr>,
           \<lparr>addr = sample_base + 512, bsize = 256, used = True\<rparr>,
           \<lparr>addr = sample_base + 768, bsize = 256, used = False\<rparr>,
           \<lparr>addr = sample_base + 1024, bsize = 256, used = True\<rparr>,
           \<lparr>addr = sample_base + 1280, bsize = HAL_ACCEL_MEM_SIZE - 1280, used = False\<rparr>])
   \<and> hal_mem_alloc (snd (fragmentation_setup (hal sample_session))) 512 True
     = (with_blocks (hal sample_session)
          [\<lparr>addr = sample_base, bsize = 256, used = True\<rparr>,
           \<lparr>addr = sample_base + 256, bsize = 256, used = False\<rparr>,
           \<lparr>addr = sample_base + 512, bsize = 256, used = True\<rparr>,
           \<lparr>addr = sample_base + 768, bsize = 256, used = False\<rparr>,
           \<lparr>addr = sample_base + 1024, bsize = 256, used = True\<rparr>,
           \<lparr>addr = sample_base + 1280, bsize = 512, used = True\<rparr>,
           \<lparr>addr = sample_base + 1792, bsize = HAL_ACCEL_MEM_SIZE - 1792, used = False\<rparr>],
        sample_base + 1280)"
  by (simp add: sample_session_eq mem_eval fragmentation_setup_def sample_base_def)

text \<open>
  C9, amended. On a freshly initialized allocator over the 256 MiB window at any non-null
  base address that does not wrap around the address space, after five successful
  allocations of 256 bytes (the block header of each has been allocated) and the release of
  the blocks at index 1 and 3, nothing has been coalesced: the two freed blocks are
  separated by the used block at index 2. A following allocation of 512 bytes is served from
  the free remainder of the window behind the five blocks and needs a block header for the
  new remainder. When that header is allocated, the call returns the non-null address at
  offset 1280 and leaves the two freed blocks as they were; when it is not, the call returns
  \<open>NULL\<close> and changes nothing.
\<close>

theorem fragmentation_scenario:
  fixes c :: hal_context and base :: ptr
  defines "st \<equiv> fresh_allocator c base HAL_ACCEL_MEM_SIZE"
  assumes "base \<noteq> NULL" and "unat base + unat HAL_ACCEL_MEM_SIZE \<le> 2 ^ 64"
  shows "fragmentation_setup st
     = ([base, base + 256, base + 512, base + 768, base + 1024],
        with_blocks st
          [\<lparr>addr = base, bsize = 256, used = True\<rparr>,
           \<lparr>addr = base + 256, bsize = 256, used = False\<rparr>,
           \<lparr>addr = base + 512, bsize = 256, used = True\<rparr>,
           \<lparr>addr = base + 768, bsize = 256, used = False\<rparr>,
           \<lparr>addr = base + 1024, bsize = 256, used = True\<rparr>,
           \<lparr>addr = base + 1280, bsize = HAL_ACCEL_MEM_SIZE - 1280, used = False\<rparr>])
   \<and> hal_mem_alloc (snd (fragmentation_setup st)) 512 True
     = (with_blocks st
          [\<lparr>addr = base, bsize = 256, used = True\<rparr>,
           \<lparr>addr = base + 256, bsize = 256, used = False\<rparr>,
           \<lparr>addr = base + 512, bsize = 256, used = True\<rparr>,
           \<lparr>addr = base + 768, bsize = 256, used = False\<rparr>,
           \<lparr>addr = base + 1024, bsize = 256, used = True\<rparr>,
           \<lparr>addr = base + 1280, bsize = 512, used = True\<rparr>,
           \<lparr>addr = base + 1792, bsize = HAL_ACCEL_MEM_SIZE - 1792, used = False\<rparr>],
        base + 1280)
   \<and> base + 1280 \<noteq> NULL
   \<and> hal_mem_alloc (snd (fragmentation_setup st)) 512 False
     = (snd (fragmentation_setup st), NULL)"
proof -
  from assms(2,3) have "base \<noteq> 0" and "unat base + 2 ^ 28 \<le> 2 ^ 64"
    by (simp_all add: NULL_def HAL_ACCEL_MEM_SIZE_def)
  then have "base + 256 \<noteq> 0" "base + 768 \<noteq> 0" "base + 1280 \<noteq> 0"
    by (simp_all add: ptr_add_nonzero)
  moreover from this have "256 + base \<noteq> 0" "768 + base \<noteq> 0" "1280 + base \<noteq> 0"
    by (metis add.commute)+
  ultimately show ?thesis
    unfolding st_def
    by (simp add: mem_eval fragmentation_setup_def)
qed

theorem fragmentation_scenario_witness:
  "sample_base \<noteq> NULL \<and> unat sample_base + unat HAL_ACCEL_MEM_SIZE \<le> 2 ^ 64
   \<and> fst (fragmentation_setup (fresh_allocator sample_hal sample_base HAL_ACCEL_MEM_SIZE))
       = [sample_base, sample_base + 256, sample_base + 512, sample_base + 768,
          sample_base + 1024]
   \<and> snd (hal_mem_alloc
        (snd (fragmentation_setup (fresh_allocator sample_hal sample_base HAL_ACCEL_MEM_SIZE)))
        512 True) = sample_base + 1280
   \<and> hal_mem_alloc
        (snd (fragmentation_setup (fresh_allocator sample_hal sample_base HAL_ACCEL_MEM_SIZE)))
        512 False
       = (snd (fragmentation_setup (fresh_allocator sample_hal sample_base HAL_ACCEL_MEM_SIZE)),
          NULL)"
proof -
  have a: "sample_base \<noteq> NULL"
    by (simp add: sample_base_def NULL_def)
  have b: "unat sample_base + unat HAL_ACCEL_MEM_SIZE \<le> 2 ^ 64"
    by (simp add: sample_base_def HAL_ACCEL_MEM_SIZE_def)
  note f = fragmentation_scenario[OF a b, of sample_hal]
  from f[THEN conjunct1]
  have "fst (fragmentation_setup (fresh_allocator sample_hal sample_base HAL_ACCEL_MEM_SIZE))
       = [sample_base, sample_base + 256, sample_base + 512, sample_base + 768,
          sample_base + 1024]"
    by (simp only: fst_conv)
  moreover from f[THEN conjunct2, THEN conjunct1]
  have "snd (hal_mem_alloc
        (snd (fragmentation_setup (fresh_allocator sample_hal sample_base HAL_ACCEL_MEM_SIZE)))
        512 True) = sample_base + 1280"
    by (simp only: snd_conv)
  moreover note f[THEN conjunct2, THEN conjunct2, THEN conjunct2]
  ultimately show ?thesis
    using a b by (simp only: simp_thms)
qed

text \<open>
  C1. On the sample allocator: \<open>hal_mem_alloc(ctx, SIZE_MAX)\<close> returns the window base
  (the rounded size has wrapped to 0), \<open>hal_mem_alloc(ctx, 64)\<close> returns the same
  address, and the caller frees both pointers. The second \<open>hal_mem_free\<close> finds the
  empty block first and returns, so the caller holds no pointer any more, the 64-byte block
  is still in use, and \<open>hal_mem_available\<close> is 64 bytes short of the window size.
\<close>

theorem alloc_size_max_leaks:
  "caller_run (hal sample_session)
      [Alloc SIZE_MAX True, Alloc 64 True, Free sample_base, Free sample_base]
     = (with_blocks (hal sample_session)
          [\<lparr>addr = sample_base, bsize = 0, used = False\<rparr>,
           \<lparr>addr = sample_base, bsize = 64, used = True\<rparr>,
           \<lparr>addr = sample_base + 64, bsize = HAL_ACCEL_MEM_SIZE - 64, used = False\<rparr>], [])
   \<and> hal_mem_available
         (fst (caller_run (hal sample_session)
                 [Alloc SIZE_MAX True, Alloc 64 True, Free sample_base, Free sample_base]))
       = HAL_ACCEL_MEM_SIZE - 64
   \<and> HAL_ACCEL_MEM_SIZE - 64 \<noteq> HAL_ACCEL_MEM_SIZE"
  by (simp add: sample_session_eq mem_eval caller_run_def sample_base_def)

text \<open>
  C7. The sample window base is 64-byte aligned. On the sample allocator
  \<open>hal_mem_alloc(ctx, SIZE_MAX)\<close> returns the non-null window base with a block of 0 bytes
  behind it; the request rounded up to the 64-byte boundary is \<open>2 ^ 64\<close> bytes, and that
  span ends beyond the end of the window.
\<close>

theorem alloc_size_max_outside_window:
  "aligned_64 sample_base
   \<and> hal_mem_alloc (hal sample_session) SIZE_MAX True
     = (with_blocks (hal sample_session)
          [\<lparr>addr = sample_base, bsize = 0, used = True\<rparr>,
           \<lparr>addr = sample_base, bsize = HAL_ACCEL_MEM_SIZE, used = False\<rparr>], sample_base)
   \<and> sample_base \<noteq> NULL
   \<and> round_up_64 (unat SIZE_MAX) = 2 ^ 64
   \<and> unat sample_base + unat HAL_ACCEL_MEM_SIZE < unat sample_base + round_up_64 (unat SIZE_MAX)"
  by (simp add: sample_session_eq mem_eval sample_base_def round_up_64_def aligned_64_def
      unsigned_minus_1_eq_mask mask_eq_exp_minus_1)

end
